theory Spec2Isabelle
  imports Complex_Main
begin

section \<open>Arrays\<close>

text \<open>
  The script \<^verbatim>\<open>PP_SPDC_simulation_jax.py\<close> works on two-dimensional arrays: the far-field
  amplitudes of one trial (complex, M by M) and the correlation matrices (complex, M*M by
  M*M; the composed G2 is real). An array is a list of rows. Floating-point numbers are
  read as the real and complex numbers they approximate, so \<open>+\<close>, \<open>*\<close> and \<open>/\<close> are
  exact here. A quotient by zero, an infinity or a NaN in the script, is 0 in HOL; the
  statements about the value of a quotient by \<open>N\<close> assume \<open>1 \<le> N\<close>.
\<close>

type_synonym cvec = "complex list"
type_synonym cmat = "complex list list"
type_synonym rmat = "real list list"

definition is_mat :: "nat \<Rightarrow> nat \<Rightarrow> 'a list list \<Rightarrow> bool" where
  "is_mat r c A = (length A = r \<and> list_all (\<lambda>row. length row = c) A)"

text \<open>\<^verbatim>\<open>np.zeros((r, c))\<close>.\<close>

definition zeros :: "nat \<Rightarrow> nat \<Rightarrow> 'a::zero list list" where
  "zeros r c = replicate r (replicate c 0)"

text \<open>Two arrays have the same shape when their rows have the same lengths, row by row.\<close>

definition same_shape :: "'a list list \<Rightarrow> 'b list list \<Rightarrow> bool" where
  "same_shape A B = (map length A = map length B)"

text \<open>Flattening an M by M array to a vector of length M*M, row after row.\<close>

definition flatten :: "cmat \<Rightarrow> cvec" where
  "flatten E = concat E"

text \<open>The outer product of two vectors: entry \<open>(r, c)\<close> is \<open>u ! r * v ! c\<close>.\<close>

definition outer :: "cvec \<Rightarrow> cvec \<Rightarrow> cmat" where
  "outer u v = map (\<lambda>a. map (\<lambda>b. a * b) v) u"

text \<open>The conjugate transpose.\<close>

definition ctranspose :: "cmat \<Rightarrow> cmat" where
  "ctranspose A = map (map cnj) (transpose A)"

text \<open>A matrix is Hermitian when it equals its transpose with every entry conjugated.\<close>

definition hermitian :: "cmat \<Rightarrow> bool" where
  "hermitian A = (ctranspose A = A)"

definition mat_add :: "cmat \<Rightarrow> cmat \<Rightarrow> cmat" where
  "mat_add A B = map2 (map2 (+)) A B"

text \<open>Dividing every entry by the count \<open>N\<close>.\<close>

definition mat_div :: "cmat \<Rightarrow> nat \<Rightarrow> cmat" where
  "mat_div A N = map (map (\<lambda>z. z / of_nat N)) A"

section \<open>The correlation accumulators G1 and Q\<close>

text \<open>
  The classes \<^verbatim>\<open>G1_mat\<close> and \<^verbatim>\<open>Q_mat\<close> come from the module \<^verbatim>\<open>All_SPDC_funcs\<close>, which the
  script imports and which is not among the sources. The script shows their interface: a
  constructor without arguments, the attributes \<^verbatim>\<open>ii\<close>, \<^verbatim>\<open>ss\<close>, \<^verbatim>\<open>si\<close>, \<^verbatim>\<open>si_dagger\<close>,
  and \<^verbatim>\<open>update(E_s_out_k, E_s_vac_k, E_i_out_k, E_i_vac_k, N)\<close>.
\<close>

record acc =
  ii :: cmat
  ss :: cmat
  si :: cmat
  si_dagger :: cmat

text \<open>
  Modelled from the spec: the constructors \<^verbatim>\<open>G1_mat()\<close> and \<^verbatim>\<open>Q_mat()\<close> are missing from the
  sources. The specification's data model gives each accumulator complex matrices over the
  flattened mode index, of side \<open>L = M * M\<close>, and makes them running sums that reach the
  sample mean after \<open>N\<close> updates, so every matrix starts at zero.
\<close>

definition G1_mat :: "nat \<Rightarrow> acc" where
  "G1_mat L = \<lparr>ii = zeros L L, ss = zeros L L, si = zeros L L, si_dagger = zeros L L\<rparr>"

definition Q_mat :: "nat \<Rightarrow> acc" where
  "Q_mat L = \<lparr>ii = zeros L L, ss = zeros L L, si = zeros L L, si_dagger = zeros L L\<rparr>"

text \<open>
  Modelled from the spec: the body of \<^verbatim>\<open>update\<close> is missing from the sources. The
  specification (section 4.3) says that it adds to each of \<^verbatim>\<open>ii\<close>, \<^verbatim>\<open>ss\<close>, \<^verbatim>\<open>si\<close> the
  outer product of the appropriate field pair divided by \<open>N\<close>, the amplitudes flattened to
  vectors of length M*M, and sets \<^verbatim>\<open>si_dagger\<close> to the conjugate transpose of the updated
  \<^verbatim>\<open>si\<close>; a shape mismatch is the only error, and it is fatal.

  \<open>add_outer\<close> is one such addition; \<open>None\<close> is the shape mismatch.
\<close>

definition add_outer :: "cmat \<Rightarrow> cvec \<times> cvec \<Rightarrow> nat \<Rightarrow> cmat option" where
  "add_outer A p N =
     (let P = outer (fst p) (snd p)
      in if same_shape A P
         then Some (map2 (map2 (\<lambda>a x. a + x / of_nat N)) A P)
         else None)"

definition acc_update :: "acc \<Rightarrow> cvec \<times> cvec \<Rightarrow> cvec \<times> cvec \<Rightarrow> cvec \<times> cvec \<Rightarrow> nat \<Rightarrow> acc option" where
  "acc_update a p_ii p_ss p_si N =
     (case add_outer (ii a) p_ii N of None \<Rightarrow> None | Some ii' \<Rightarrow>
      case add_outer (ss a) p_ss N of None \<Rightarrow> None | Some ss' \<Rightarrow>
      case add_outer (si a) p_si N of None \<Rightarrow> None | Some si' \<Rightarrow>
        Some \<lparr>ii = ii', ss = ss', si = si', si_dagger = ctranspose si'\<rparr>)"

text \<open>
  The four far-field amplitudes of one trial, in the order of the arguments of
  \<^verbatim>\<open>update\<close>: signal output, signal vacuum, idler output, idler vacuum.
\<close>

type_synonym trial = "cmat \<times> cmat \<times> cmat \<times> cmat"

text \<open>
  Modelled from the spec: the field pairs of G1. The specification describes G1 as each
  field's own vacuum with conjugated vacuum, a field correlated with itself, of the type
  \<open>\<langle>a\<^sup>\<dagger>(k) a(k')\<rangle>\<close>, for idler-idler, signal-signal and signal-idler.
\<close>

fun G1_pair_ii :: "trial \<Rightarrow> cvec \<times> cvec" where
  "G1_pair_ii (s_out, s_vac, i_out, i_vac) = (map cnj (flatten i_vac), flatten i_vac)"

fun G1_pair_ss :: "trial \<Rightarrow> cvec \<times> cvec" where
  "G1_pair_ss (s_out, s_vac, i_out, i_vac) = (map cnj (flatten s_vac), flatten s_vac)"

fun G1_pair_si :: "trial \<Rightarrow> cvec \<times> cvec" where
  "G1_pair_si (s_out, s_vac, i_out, i_vac) = (map cnj (flatten s_vac), flatten i_vac)"

text \<open>
  Modelled from the spec: the field pairs of Q. The specification describes Q as the
  output and the vacuum components of possibly different fields, of the type
  \<open>\<langle>a(k) a(k')\<rangle>\<close>, for the same three combinations.
\<close>

fun Q_pair_ii :: "trial \<Rightarrow> cvec \<times> cvec" where
  "Q_pair_ii (s_out, s_vac, i_out, i_vac) = (flatten i_out, flatten i_vac)"

fun Q_pair_ss :: "trial \<Rightarrow> cvec \<times> cvec" where
  "Q_pair_ss (s_out, s_vac, i_out, i_vac) = (flatten s_out, flatten s_vac)"

fun Q_pair_si :: "trial \<Rightarrow> cvec \<times> cvec" where
  "Q_pair_si (s_out, s_vac, i_out, i_vac) = (flatten s_out, flatten i_vac)"

definition G1_update :: "acc \<Rightarrow> cmat \<Rightarrow> cmat \<Rightarrow> cmat \<Rightarrow> cmat \<Rightarrow> nat \<Rightarrow> acc option" where
  "G1_update a E_s_out_k E_s_vac_k E_i_out_k E_i_vac_k N =
     (let t = (E_s_out_k, E_s_vac_k, E_i_out_k, E_i_vac_k)
      in acc_update a (G1_pair_ii t) (G1_pair_ss t) (G1_pair_si t) N)"

definition Q_update :: "acc \<Rightarrow> cmat \<Rightarrow> cmat \<Rightarrow> cmat \<Rightarrow> cmat \<Rightarrow> nat \<Rightarrow> acc option" where
  "Q_update a E_s_out_k E_s_vac_k E_i_out_k E_i_vac_k N =
     (let t = (E_s_out_k, E_s_vac_k, E_i_out_k, E_i_vac_k)
      in acc_update a (Q_pair_ii t) (Q_pair_ss t) (Q_pair_si t) N)"

text \<open>
  A run of updates, one per trial, each with the same \<open>N\<close>; the first shape mismatch
  aborts it.
\<close>

fun G1_updates :: "nat \<Rightarrow> acc \<Rightarrow> trial list \<Rightarrow> acc option" where
  "G1_updates N a [] = Some a"
| "G1_updates N a ((s_out, s_vac, i_out, i_vac) # ts) =
     (case G1_update a s_out s_vac i_out i_vac N of
        None \<Rightarrow> None
      | Some a' \<Rightarrow> G1_updates N a' ts)"

fun Q_updates :: "nat \<Rightarrow> acc \<Rightarrow> trial list \<Rightarrow> acc option" where
  "Q_updates N a [] = Some a"
| "Q_updates N a ((s_out, s_vac, i_out, i_vac) # ts) =
     (case Q_update a s_out s_vac i_out i_vac N of
        None \<Rightarrow> None
      | Some a' \<Rightarrow> Q_updates N a' ts)"

text \<open>
  One step of a running sum: the outer product of a field pair added to \<open>S\<close>. Then the
  sum of the outer products of a list of field pairs, and their arithmetic mean: the sum
  divided by the number of pairs.
\<close>

definition add_pair :: "cmat \<Rightarrow> cvec \<times> cvec \<Rightarrow> cmat" where
  "add_pair S p = mat_add S (outer (fst p) (snd p))"

definition sum_outer :: "nat \<Rightarrow> (cvec \<times> cvec) list \<Rightarrow> cmat" where
  "sum_outer L ps = foldl add_pair (zeros L L) ps"

definition mean_outer :: "nat \<Rightarrow> (cvec \<times> cvec) list \<Rightarrow> cmat" where
  "mean_outer L ps = mat_div (sum_outer L ps) (length ps)"

text \<open>The four amplitudes of a trial are M by M.\<close>

definition trial_ok :: "nat \<Rightarrow> trial \<Rightarrow> bool" where
  "trial_ok M t = (case t of (s_out, s_vac, i_out, i_vac) \<Rightarrow>
     is_mat M M s_out \<and> is_mat M M s_vac \<and> is_mat M M i_out \<and> is_mat M M i_vac)"

text \<open>Every matrix of an accumulator is square of side \<open>L\<close>.\<close>

definition acc_shape :: "nat \<Rightarrow> acc \<Rightarrow> bool" where
  "acc_shape L a = (is_mat L L (ii a) \<and> is_mat L L (ss a) \<and> is_mat L L (si a) \<and> is_mat L L (si_dagger a))"

section \<open>The script\<close>

text \<open>
  \<^verbatim>\<open>PP_SPDC_simulation_jax.py\<close> is a script: it builds the crystal and the beams, draws the
  vacuum samples, runs \<open>N\<close> trials that update G1 and Q, and then derives the
  photodetection maps and G2. The classes and functions it takes from \<^verbatim>\<open>All_SPDC_funcs\<close>
  and from the libraries are not among the sources; the objects they build are inputs of
  the model and the functions are parameters. Their attributes are the ones the script
  reads. The attributes \<^verbatim>\<open>k\<close>, \<^verbatim>\<open>n\<close>, \<^verbatim>\<open>w\<close>, \<^verbatim>\<open>x\<close>, \<^verbatim>\<open>y\<close> carry a prefix here.
\<close>

record beam =
  lam :: real
  beam_k :: real
  beam_n :: real
  beam_w :: real

record crystal =
  cr_x :: "real list"
  cr_y :: "real list"
  MaxX :: real
  poling_period :: real

record field_t =
  E_out :: cmat
  E_vac :: cmat

text \<open>One slice \<^verbatim>\<open>vac_rnd[n]\<close> of the sampled array of shape \<^verbatim>\<open>(N, 2, Nx, Ny)\<close>.\<close>

type_synonym sample = "real list list list"

text \<open>
  The functions the script calls. \<^verbatim>\<open>random.normal(key, (N, 2, Nx, Ny))\<close> returns an array
  whose leading axis has length \<open>N\<close>, and the script reads it only as \<^verbatim>\<open>vac_rnd[n]\<close> with
  \<open>n\<close> in \<^verbatim>\<open>range(N)\<close>; the array is represented by that lookup. \<^verbatim>\<open>crystal_prop\<close> and
  \<^verbatim>\<open>crystal_prop_indistuigishable\<close> change the field objects they are given; they return
  the changed objects here.
\<close>

record lib =
  PRNGKey :: "nat \<Rightarrow> nat"
  random_normal :: "nat \<Rightarrow> nat \<times> nat \<times> nat \<times> nat \<Rightarrow> nat \<Rightarrow> sample"
  Field :: "beam \<Rightarrow> crystal \<Rightarrow> sample \<Rightarrow> field_t"
  crystal_prop :: "beam \<Rightarrow> field_t \<Rightarrow> field_t \<Rightarrow> crystal \<Rightarrow> field_t \<times> field_t"
  crystal_prop_indistuigishable :: "beam \<Rightarrow> field_t \<Rightarrow> crystal \<Rightarrow> field_t"
  Fourier :: "cmat \<Rightarrow> cmat"
  G1_Normalization :: "real \<Rightarrow> real"

text \<open>
  The configuration of a run: the objects built at the top of the script (lines 48 to 58)
  and its constants. The script fixes \<^verbatim>\<open>R = 0.1\<close>, \<^verbatim>\<open>IS_INDISTIGUISHABLE = 0\<close>, \<^verbatim>\<open>N = 100\<close>
  and the seeds 1986 and 1989; they are the fields \<open>R_ff\<close>, \<open>IS_INDISTIGUISHABLE\<close>,
  \<open>N_iter\<close>, \<open>seed_sig\<close> and \<open>seed_idl\<close> here, so that statements can range over them.
  \<^verbatim>\<open>DO_POLAR\<close> is 0 in the script and the polar branches are left out.
\<close>

record config =
  PP_SLT :: crystal
  Pump :: beam
  Signal :: beam
  Idler :: beam
  R_ff :: real
  IS_INDISTIGUISHABLE :: bool
  N_iter :: nat
  seed_sig :: nat
  seed_idl :: nat

text \<open>Line 51: \<^verbatim>\<open>M = len(PP_SLT.x)\<close>.\<close>

definition M_size :: "config \<Rightarrow> nat" where
  "M_size c = length (cr_x (PP_SLT c))"

text \<open>Lines 61 and 62: the poling period is set from the phase mismatch.\<close>

definition delta_k :: "config \<Rightarrow> real" where
  "delta_k c = beam_k (Pump c) - beam_k (Signal c) - beam_k (Idler c)"

definition poled :: "config \<Rightarrow> crystal" where
  "poled c = (PP_SLT c)\<lparr>poling_period := 1003 / 1000 * delta_k c\<rparr>"

text \<open>
  Lines 69 and 70: the indicator matrix. \<open>index_update_stride A s v\<close> is
  \<^verbatim>\<open>ops.index_update(A, ops.index[::s, ::s], v)\<close>: the entries whose row and column are both
  in \<^verbatim>\<open>range(0, _, s)\<close> become \<open>v\<close>, the others stay. The script's step is \<open>M + 1\<close>,
  so it is never zero.
\<close>

definition index_update_stride :: "'a list list \<Rightarrow> nat \<Rightarrow> 'a \<Rightarrow> 'a list list" where
  "index_update_stride A s v =
     map (\<lambda>r. map (\<lambda>c. if r mod s = 0 \<and> c mod s = 0 then v else A ! r ! c)
                 [0..<length (A ! r)])
         [0..<length A]"

definition Kron_diag :: "nat \<Rightarrow> rmat" where
  "Kron_diag M = index_update_stride (zeros (M ^ 2) (M ^ 2)) (M + 1) 1"

text \<open>Lines 77 to 82: the vacuum samples of the signal and of the idler.\<close>

definition vac_rnd_sig :: "lib \<Rightarrow> config \<Rightarrow> nat \<Rightarrow> sample" where
  "vac_rnd_sig e c =
     random_normal e (PRNGKey e (seed_sig c))
       (N_iter c, 2, length (cr_x (PP_SLT c)), length (cr_y (PP_SLT c)))"

definition vac_rnd_idl :: "lib \<Rightarrow> config \<Rightarrow> nat \<Rightarrow> sample" where
  "vac_rnd_idl e c =
     random_normal e (PRNGKey e (seed_idl c))
       (N_iter c, 2, length (cr_x (PP_SLT c)), length (cr_y (PP_SLT c)))"

text \<open>
  The far-field normalisation (lines 108, 151, 152):
  \<^verbatim>\<open>(2 * PP_SLT.MaxX) ** 2 / (np.size(E) * lam * R)\<close>, and the product of this real
  factor with a complex array.
\<close>

definition FarFieldNorm :: "crystal \<Rightarrow> cmat \<Rightarrow> beam \<Rightarrow> real \<Rightarrow> real" where
  "FarFieldNorm PP E b R = (2 * MaxX PP) ^ 2 / (of_nat (length (concat E)) * lam b * R)"

definition scale :: "real \<Rightarrow> cmat \<Rightarrow> cmat" where
  "scale x E = map (map (\<lambda>z. of_real x * z)) E"

text \<open>
  Lines 101 to 112, the degenerate case: the four arguments of the two \<^verbatim>\<open>update\<close> calls
  of trial \<open>n\<close>, whose sample is \<open>v\<close>.
\<close>

definition trial_indistuigishable :: "lib \<Rightarrow> config \<Rightarrow> sample \<Rightarrow> trial" where
  "trial_indistuigishable e c v =
     (let Siganl_field = Field e (Signal c) (poled c) v;
          Siganl_field = crystal_prop_indistuigishable e (Pump c) Siganl_field (poled c);
          FarFieldNorm_signal = FarFieldNorm (poled c) (E_out Siganl_field) (Signal c) (R_ff c);
          E_s_out_k = scale FarFieldNorm_signal (Fourier e (E_out Siganl_field));
          E_s_vac_k = scale FarFieldNorm_signal (Fourier e (E_vac Siganl_field))
      in (E_s_out_k, E_s_vac_k, E_s_out_k, E_s_vac_k))"

text \<open>Lines 143 to 158, the distinguishable case, with the samples \<open>v\<close> and \<open>v'\<close>.\<close>

definition trial_distuigishable :: "lib \<Rightarrow> config \<Rightarrow> sample \<Rightarrow> sample \<Rightarrow> trial" where
  "trial_distuigishable e c v v' =
     (let Siganl_field = Field e (Signal c) (poled c) v;
          Idler_field = Field e (Idler c) (poled c) v';
          (Siganl_field, Idler_field) = crystal_prop e (Pump c) Siganl_field Idler_field (poled c);
          FarFieldNorm_signal = FarFieldNorm (poled c) (E_out Siganl_field) (Signal c) (R_ff c);
          FarFieldNorm_idler = FarFieldNorm (poled c) (E_out Idler_field) (Idler c) (R_ff c);
          E_s_out_k = scale FarFieldNorm_signal (Fourier e (E_out Siganl_field));
          E_i_out_k = scale FarFieldNorm_idler (Fourier e (E_out Idler_field));
          E_s_vac_k = scale FarFieldNorm_signal (Fourier e (E_vac Siganl_field));
          E_i_vac_k = scale FarFieldNorm_idler (Fourier e (E_vac Idler_field))
      in (E_s_out_k, E_s_vac_k, E_i_out_k, E_i_vac_k))"

text \<open>
  The two accumulators, and the two calls that end a trial (lines 117 and 122, 163 and
  168): \<^verbatim>\<open>G1.update\<close> and then \<^verbatim>\<open>Q.update\<close>, with the same five arguments.
\<close>

record accs =
  G1_acc :: acc
  Q_acc :: acc

definition accumulate :: "nat \<Rightarrow> trial \<Rightarrow> accs \<Rightarrow> accs option" where
  "accumulate N t s =
     (case t of (E_s_out_k, E_s_vac_k, E_i_out_k, E_i_vac_k) \<Rightarrow>
        (case G1_update (G1_acc s) E_s_out_k E_s_vac_k E_i_out_k E_i_vac_k N of
           None \<Rightarrow> None
         | Some g \<Rightarrow>
             (case Q_update (Q_acc s) E_s_out_k E_s_vac_k E_i_out_k E_i_vac_k N of
                None \<Rightarrow> None
              | Some q \<Rightarrow> Some \<lparr>G1_acc = g, Q_acc = q\<rparr>)))"

text \<open>
  \<^verbatim>\<open>for n in range(k): s = body(n, s)\<close>, stopping at the first failure.
\<close>

primrec for_range :: "(nat \<Rightarrow> 's \<Rightarrow> 's option) \<Rightarrow> nat \<Rightarrow> 's \<Rightarrow> 's option" where
  "for_range body 0 s = Some s"
| "for_range body (Suc k) s =
     (case for_range body k s of None \<Rightarrow> None | Some s' \<Rightarrow> body k s')"

text \<open>
  Lines 85 to 178: the accumulators after the first \<open>k\<close> trials of the loop that the flag
  selects. The script runs the loop to \<open>k = N\<close>.
\<close>

definition after_trials :: "lib \<Rightarrow> config \<Rightarrow> nat \<Rightarrow> accs option" where
  "after_trials e c k =
     (let s0 = \<lparr>G1_acc = G1_mat (M_size c * M_size c), Q_acc = Q_mat (M_size c * M_size c)\<rparr>
      in if IS_INDISTIGUISHABLE c
         then for_range
                (\<lambda>n. accumulate (N_iter c) (trial_indistuigishable e c (vac_rnd_sig e c n))) k s0
         else for_range
                (\<lambda>n. accumulate (N_iter c)
                       (trial_distuigishable e c (vac_rnd_sig e c n) (vac_rnd_idl e c n))) k s0)"

text \<open>
  Lines 211 and 212. \<open>mask_select A K\<close> is \<^verbatim>\<open>A[K != 0]\<close>: the entries of \<open>A\<close> where the
  mask is set, row after row; the two shapes must agree. \<open>reshape xs r c\<close> is
  \<^verbatim>\<open>np.reshape(xs, (r, c))\<close>: it needs \<open>r * c\<close> entries.
\<close>

definition mask_select :: "'a list list \<Rightarrow> rmat \<Rightarrow> 'a list option" where
  "mask_select A K =
     (if same_shape A K
      then Some (concat (map2 (\<lambda>row krow. map fst (filter (\<lambda>(x, m). m \<noteq> 0) (zip row krow))) A K))
      else None)"

definition reshape :: "'a list \<Rightarrow> nat \<Rightarrow> nat \<Rightarrow> 'a list list option" where
  "reshape xs r c =
     (if length xs = r * c
      then Some (map (\<lambda>i. take c (drop (i * c) xs)) [0..<r])
      else None)"

definition photodetection :: "cmat \<Rightarrow> rmat \<Rightarrow> nat \<Rightarrow> real \<Rightarrow> cmat option" where
  "photodetection A K M nrm =
     (case mask_select A K of
        None \<Rightarrow> None
      | Some xs \<Rightarrow>
          (case reshape xs M M of
             None \<Rightarrow> None
           | Some P \<Rightarrow> Some (map (map (\<lambda>z. z / of_real nrm)) P)))"

text \<open>
  Line 244: \<^verbatim>\<open>np.real(G1.ii * G1.ss + Q.si_dagger * Q.si + G1.si_dagger * G1.si)\<close>, with
  \<^verbatim>\<open>*\<close> and \<^verbatim>\<open>+\<close> entry by entry on arrays of one shape.
\<close>

definition ew_mul :: "cmat \<Rightarrow> cmat \<Rightarrow> cmat" where
  "ew_mul A B = map2 (map2 (*)) A B"

definition np_real :: "cmat \<Rightarrow> rmat" where
  "np_real A = map (map Re) A"

definition compose_G2 :: "acc \<Rightarrow> acc \<Rightarrow> rmat" where
  "compose_G2 g q =
     np_real (mat_add (mat_add (ew_mul (ii g) (ss g)) (ew_mul (si_dagger q) (si q)))
                      (ew_mul (si_dagger g) (si g)))"

text \<open>
  Modelled from the spec: \<^verbatim>\<open>unwrap_kron\<close> is in \<^verbatim>\<open>All_SPDC_funcs\<close> and missing from the
  sources. The specification (section 4.5) has it rebuild the M by M by M by M form of an
  M*M by M*M matrix by inverting the flattening of the row and of the column index, an
  index \<open>a * M + b\<close> standing for the pair \<open>(a, b)\<close>; the script's header calls it the
  unwrapping of a Kronecker product. In \<^verbatim>\<open>np.kron(A, B)\<close> the entry at row \<open>i * M + k\<close>
  and column \<open>j * M + l\<close> is \<open>A[i, j] * B[k, l]\<close>, so the entry \<open>[i, j, k, l]\<close> of the
  unwrapped form is the entry of the matrix at row \<open>i * M + k\<close> and column \<open>j * M + l\<close>.
  The matrix must be M*M by M*M.
\<close>

definition unwrap_kron :: "'a list list \<Rightarrow> nat \<Rightarrow> 'a list list list list" where
  "unwrap_kron T M =
     map (\<lambda>i. map (\<lambda>j. map (\<lambda>k. map (\<lambda>l. T ! (i * M + k) ! (j * M + l))
       [0..<M]) [0..<M]) [0..<M]) [0..<M]"

text \<open>
  Modelled from the spec: flattening back with the same index map, which the
  specification's round trip (section 8) asks for; the script has no such step.
\<close>

definition wrap_kron :: "'a list list list list \<Rightarrow> nat \<Rightarrow> 'a list list" where
  "wrap_kron C M =
     map (\<lambda>r. map (\<lambda>c. C ! (r div M) ! (c div M) ! (r mod M) ! (c mod M)) [0..<M * M])
         [0..<M * M]"

text \<open>
  The loop that lines 197 to 202 keep as a comment: \<^verbatim>\<open>P[i, j] = G1[i, j, i, j] / norm\<close>
  over the grid indices, on the four-index form.
\<close>

definition P_loop :: "complex list list list list \<Rightarrow> nat \<Rightarrow> real \<Rightarrow> cmat" where
  "P_loop G4 M nrm = map (\<lambda>i. map (\<lambda>j. G4 ! i ! j ! i ! j / of_real nrm) [0..<M]) [0..<M]"

text \<open>
  What the script computes, up to line 259. In the degenerate case line 132 rebinds
  \<^verbatim>\<open>Idler = Signal\<close> after the loop, so the normalisation of \<^verbatim>\<open>P_ii\<close> reads the signal
  beam. The remaining lines scale and plot.
\<close>

record results =
  res_G1 :: acc
  res_Q :: acc
  P_ii :: cmat
  P_ss :: cmat
  G2 :: rmat
  G2_unwrapped :: "real list list list list"

definition script :: "lib \<Rightarrow> config \<Rightarrow> results option" where
  "script e c =
     (let M = M_size c;
          K = Kron_diag M
      in case after_trials e c (N_iter c) of
           None \<Rightarrow> None
         | Some s \<Rightarrow>
             (let Idler' = (if IS_INDISTIGUISHABLE c then Signal c else Idler c)
              in case photodetection (ii (G1_acc s)) K M (G1_Normalization e (beam_w Idler')) of
                   None \<Rightarrow> None
                 | Some Pii \<Rightarrow>
                     (case photodetection (ss (G1_acc s)) K M (G1_Normalization e (beam_w (Signal c))) of
                        None \<Rightarrow> None
                      | Some Pss \<Rightarrow>
                          (let G2v = compose_G2 (G1_acc s) (Q_acc s)
                           in Some \<lparr>res_G1 = G1_acc s, res_Q = Q_acc s, P_ii = Pii, P_ss = Pss,
                                    G2 = G2v, G2_unwrapped = unwrap_kron G2v M\<rparr>))))"

section \<open>A small run\<close>

text \<open>
  A library and two configurations on a grid of one point, to instantiate the statements
  below: the propagators mix the vacuum amplitudes, the transform is the identity, and the
  second configuration sets the flag of the degenerate case.
\<close>

definition lib0 :: lib where
  "lib0 = \<lparr>PRNGKey = (\<lambda>seed. seed),
           random_normal = (\<lambda>key shp n. [[[real (key + n)]], [[real n + 1]]]),
           Field = (\<lambda>b cr v. \<lparr>E_out = [[Complex (lam b) 0]],
                                E_vac = [[Complex (hd (hd (v ! 0))) (hd (hd (v ! 1)))]]\<rparr>),
           crystal_prop = (\<lambda>p f f' cr. (f\<lparr>E_out := scale 2 (E_vac f')\<rparr>, f'\<lparr>E_out := scale 3 (E_vac f)\<rparr>)),
           crystal_prop_indistuigishable = (\<lambda>p f cr. f\<lparr>E_out := scale 2 (E_vac f)\<rparr>),
           Fourier = (\<lambda>E. E),
           G1_Normalization = (\<lambda>w. w)\<rparr>"

definition config0 :: config where
  "config0 = \<lparr>PP_SLT = \<lparr>cr_x = [0], cr_y = [0], MaxX = 1, poling_period = 0\<rparr>,
              Pump = \<lparr>lam = 1, beam_k = 4, beam_n = 2, beam_w = 2\<rparr>,
              Signal = \<lparr>lam = 2, beam_k = 2, beam_n = 2, beam_w = 1\<rparr>,
              Idler = \<lparr>lam = 2, beam_k = 2, beam_n = 2, beam_w = 1\<rparr>,
              R_ff = 1, IS_INDISTIGUISHABLE = False, N_iter = 2,
              seed_sig = 1986, seed_idl = 1989\<rparr>"

definition config1 :: config where
  "config1 = config0\<lparr>IS_INDISTIGUISHABLE := True\<rparr>"

section \<open>Arrays: shapes and entries\<close>

lemma is_mat_iff: "is_mat r c A \<longleftrightarrow> length A = r \<and> (\<forall>i<r. length (A ! i) = c)"
  by (auto simp: is_mat_def list_all_length)

lemma mat_eqI:
  assumes "is_mat r c A" "is_mat r c B"
    and "\<And>i j. i < r \<Longrightarrow> j < c \<Longrightarrow> A ! i ! j = B ! i ! j"
  shows "A = B"
proof (rule nth_equalityI)
  show "length A = length B" using assms by (simp add: is_mat_iff)
next
  fix i assume "i < length A"
  then have i: "i < r" using assms(1) by (simp add: is_mat_iff)
  show "A ! i = B ! i"
  proof (rule nth_equalityI)
    show "length (A ! i) = length (B ! i)" using assms(1,2) i by (simp add: is_mat_iff)
  next
    fix j assume "j < length (A ! i)"
    then have "j < c" using assms(1) i by (simp add: is_mat_iff)
    then show "A ! i ! j = B ! i ! j" using assms(3) i by simp
  qed
qed

lemma is_mat_zeros: "is_mat r c (zeros r c)"
  by (simp add: is_mat_iff zeros_def)

lemma nth_zeros: "i < r \<Longrightarrow> j < c \<Longrightarrow> zeros r c ! i ! j = 0"
  by (simp add: zeros_def)

lemma is_mat_outer: "is_mat (length u) (length v) (outer u v)"
  by (simp add: is_mat_iff outer_def)

lemma nth_outer: "i < length u \<Longrightarrow> j < length v \<Longrightarrow> outer u v ! i ! j = u ! i * v ! j"
  by (simp add: outer_def)

lemma same_shape_is_mat: "same_shape A B \<Longrightarrow> is_mat r c B \<Longrightarrow> is_mat r c A"
proof -
  assume s: "same_shape A B" and m: "is_mat r c B"
  from s have l: "length A = length B" unfolding same_shape_def by (rule map_eq_imp_length_eq)
  have "\<forall>i<length A. length (A ! i) = length (B ! i)"
  proof (intro allI impI)
    fix i assume i: "i < length A"
    have "map length A ! i = map length B ! i" using s by (simp add: same_shape_def)
    then show "length (A ! i) = length (B ! i)" using i l by simp
  qed
  then show ?thesis using m l by (simp add: is_mat_iff)
qed

lemma is_mat_same_shape: "is_mat r c A \<Longrightarrow> is_mat r c B \<Longrightarrow> same_shape A B"
  unfolding same_shape_def by (rule nth_equalityI) (simp_all add: is_mat_iff)

lemma is_mat_map2:
  "is_mat r c A \<Longrightarrow> is_mat r c B \<Longrightarrow> is_mat r c (map2 (map2 f) A B)"
  by (simp add: is_mat_iff)

lemma nth_map2_map2:
  "is_mat r c A \<Longrightarrow> is_mat r c B \<Longrightarrow> i < r \<Longrightarrow> j < c \<Longrightarrow>
   map2 (map2 f) A B ! i ! j = f (A ! i ! j) (B ! i ! j)"
  by (simp add: is_mat_iff)

lemma add_outer_Some:
  assumes "add_outer A p N = Some A'"
  shows "is_mat (length (fst p)) (length (snd p)) A"
    and "is_mat (length (fst p)) (length (snd p)) A'"
    and "\<And>i j. i < length (fst p) \<Longrightarrow> j < length (snd p) \<Longrightarrow>
           A' ! i ! j = A ! i ! j + fst p ! i * snd p ! j / of_nat N"
proof -
  let ?P = "outer (fst p) (snd p)"
  from assms have s: "same_shape A ?P"
    and A': "A' = map2 (map2 (\<lambda>a x. a + x / of_nat N)) A ?P"
    by (auto simp: add_outer_def Let_def split: if_splits)
  show m: "is_mat (length (fst p)) (length (snd p)) A"
    using s is_mat_outer by (rule same_shape_is_mat)
  show "is_mat (length (fst p)) (length (snd p)) A'"
    unfolding A' using m is_mat_outer by (rule is_mat_map2)
  fix i j assume "i < length (fst p)" "j < length (snd p)"
  then show "A' ! i ! j = A ! i ! j + fst p ! i * snd p ! j / of_nat N"
    unfolding A' using m is_mat_outer by (simp add: nth_map2_map2 nth_outer)
qed

lemma add_outer_total:
  "is_mat (length (fst p)) (length (snd p)) A \<Longrightarrow> \<exists>A'. add_outer A p N = Some A'"
  by (simp add: add_outer_def Let_def is_mat_same_shape [OF _ is_mat_outer])

lemma transpose_square:
  assumes "is_mat L L A"
  shows "transpose A = map (\<lambda>i. map (\<lambda>j. A ! j ! i) [0..<L]) [0..<L]"
proof -
  have "transpose A = map (\<lambda>i. map (\<lambda>j. A ! j ! i) [0..<length A]) [0..<L]"
    using assms by (intro transpose_rectangle) (auto simp: is_mat_iff)
  then show ?thesis using assms by (simp add: is_mat_iff)
qed

lemma ctranspose_square:
  "is_mat L L A \<Longrightarrow> ctranspose A = map (\<lambda>i. map (\<lambda>j. cnj (A ! j ! i)) [0..<L]) [0..<L]"
  by (simp add: ctranspose_def transpose_square)

lemma is_mat_ctranspose: "is_mat L L A \<Longrightarrow> is_mat L L (ctranspose A)"
  by (simp add: ctranspose_square) (simp add: is_mat_iff)

lemma nth_ctranspose:
  "is_mat L L A \<Longrightarrow> i < L \<Longrightarrow> j < L \<Longrightarrow> ctranspose A ! i ! j = cnj (A ! j ! i)"
  by (simp add: ctranspose_square)

lemma length_flatten: "is_mat M M E \<Longrightarrow> length (flatten E) = M * M"
  by (simp add: flatten_def is_mat_def length_concat list_all_iff sum_list_triv cong: map_cong)

section \<open>Accumulator updates\<close>

lemma acc_update_Some:
  assumes "acc_update a p_ii p_ss p_si N = Some a'"
  obtains ii' ss' si' where "add_outer (ii a) p_ii N = Some ii'"
    and "add_outer (ss a) p_ss N = Some ss'" and "add_outer (si a) p_si N = Some si'"
    and "a' = \<lparr>ii = ii', ss = ss', si = si', si_dagger = ctranspose si'\<rparr>"
  using assms by (auto simp: acc_update_def split: option.splits)

lemma acc_update_shape:
  assumes "acc_update a p_ii p_ss p_si N = Some a'"
    and "length (fst p_ii) = L" "length (snd p_ii) = L"
    and "length (fst p_ss) = L" "length (snd p_ss) = L"
    and "length (fst p_si) = L" "length (snd p_si) = L"
  shows "acc_shape L a' \<and> si_dagger a' = ctranspose (si a')"
proof -
  from assms(1) obtain ii' ss' si' where
    1: "add_outer (ii a) p_ii N = Some ii'" and 2: "add_outer (ss a) p_ss N = Some ss'"
    and 3: "add_outer (si a) p_si N = Some si'"
    and a': "a' = \<lparr>ii = ii', ss = ss', si = si', si_dagger = ctranspose si'\<rparr>"
    by (rule acc_update_Some)
  have "is_mat L L ii'" using add_outer_Some(2) [OF 1] assms by simp
  moreover have "is_mat L L ss'" using add_outer_Some(2) [OF 2] assms by simp
  moreover have s: "is_mat L L si'" using add_outer_Some(2) [OF 3] assms by simp
  moreover have "is_mat L L (ctranspose si')" using s by (rule is_mat_ctranspose)
  ultimately show ?thesis by (simp add: a' acc_shape_def)
qed

lemma acc_update_total:
  assumes "acc_shape L a"
    and "length (fst p_ii) = L" "length (snd p_ii) = L"
    and "length (fst p_ss) = L" "length (snd p_ss) = L"
    and "length (fst p_si) = L" "length (snd p_si) = L"
  shows "\<exists>a'. acc_update a p_ii p_ss p_si N = Some a'"
proof -
  obtain ii' where 1: "add_outer (ii a) p_ii N = Some ii'"
    using add_outer_total [of p_ii "ii a" N] assms by (auto simp: acc_shape_def)
  obtain ss' where 2: "add_outer (ss a) p_ss N = Some ss'"
    using add_outer_total [of p_ss "ss a" N] assms by (auto simp: acc_shape_def)
  obtain si' where 3: "add_outer (si a) p_si N = Some si'"
    using add_outer_total [of p_si "si a" N] assms by (auto simp: acc_shape_def)
  show ?thesis by (simp add: acc_update_def 1 2 3)
qed

lemma G1_pair_lengths:
  assumes "trial_ok M t"
  shows "length (fst (G1_pair_ii t)) = M * M" "length (snd (G1_pair_ii t)) = M * M"
    "length (fst (G1_pair_ss t)) = M * M" "length (snd (G1_pair_ss t)) = M * M"
    "length (fst (G1_pair_si t)) = M * M" "length (snd (G1_pair_si t)) = M * M"
  using assms by (cases t; simp add: trial_ok_def length_flatten)+

lemma Q_pair_lengths:
  assumes "trial_ok M t"
  shows "length (fst (Q_pair_ii t)) = M * M" "length (snd (Q_pair_ii t)) = M * M"
    "length (fst (Q_pair_ss t)) = M * M" "length (snd (Q_pair_ss t)) = M * M"
    "length (fst (Q_pair_si t)) = M * M" "length (snd (Q_pair_si t)) = M * M"
  using assms by (cases t; simp add: trial_ok_def length_flatten)+

text \<open>
  Claim C4. A call of \<^verbatim>\<open>update\<close> on a G1 or a Q accumulator with the four M by M
  amplitudes of a trial, when it returns, leaves each of \<open>ii\<close>, \<open>ss\<close>, \<open>si\<close>,
  \<open>si_dagger\<close> square of side M*M, and \<open>si_dagger\<close> is the conjugate transpose of
  \<open>si\<close>. It does return when the accumulator had that shape before the call.
\<close>

theorem update_shape_dagger:
  assumes "trial_ok M (s_out, s_vac, i_out, i_vac)"
  shows "(\<forall>a'. G1_update a s_out s_vac i_out i_vac N = Some a' \<longrightarrow>
            acc_shape (M * M) a' \<and> si_dagger a' = ctranspose (si a'))
       \<and> (\<forall>a'. Q_update a s_out s_vac i_out i_vac N = Some a' \<longrightarrow>
            acc_shape (M * M) a' \<and> si_dagger a' = ctranspose (si a'))
       \<and> (acc_shape (M * M) a \<longrightarrow>
            (\<exists>a'. G1_update a s_out s_vac i_out i_vac N = Some a')
          \<and> (\<exists>a'. Q_update a s_out s_vac i_out i_vac N = Some a'))"
proof (intro conjI allI impI)
  fix a' assume "G1_update a s_out s_vac i_out i_vac N = Some a'"
  then have "acc_shape (M * M) a' \<and> si_dagger a' = ctranspose (si a')"
    unfolding G1_update_def Let_def
    by (rule acc_update_shape) (rule G1_pair_lengths [OF assms])+
  then show "acc_shape (M * M) a'" "si_dagger a' = ctranspose (si a')" by simp_all
next
  fix a' assume "Q_update a s_out s_vac i_out i_vac N = Some a'"
  then have "acc_shape (M * M) a' \<and> si_dagger a' = ctranspose (si a')"
    unfolding Q_update_def Let_def
    by (rule acc_update_shape) (rule Q_pair_lengths [OF assms])+
  then show "acc_shape (M * M) a'" "si_dagger a' = ctranspose (si a')" by simp_all
next
  assume "acc_shape (M * M) a"
  then show "\<exists>a'. G1_update a s_out s_vac i_out i_vac N = Some a'"
    unfolding G1_update_def Let_def
    by (rule acc_update_total) (rule G1_pair_lengths [OF assms])+
next
  assume "acc_shape (M * M) a"
  then show "\<exists>a'. Q_update a s_out s_vac i_out i_vac N = Some a'"
    unfolding Q_update_def Let_def
    by (rule acc_update_total) (rule Q_pair_lengths [OF assms])+
qed

theorem update_shape_dagger_witness:
  "trial_ok 2 ([[1, 2], [3, 4]], [[\<i>, 0], [0, 1]], [[1, 1], [1, 1]], [[0, \<i>], [2, 0]])
   \<and> acc_shape (2 * 2) (G1_mat (2 * 2))
   \<and> (\<exists>a'. G1_update (G1_mat (2 * 2))
             [[1, 2], [3, 4]] [[\<i>, 0], [0, 1]] [[1, 1], [1, 1]] [[0, \<i>], [2, 0]] 3 = Some a'
          \<and> acc_shape (2 * 2) a' \<and> si_dagger a' = ctranspose (si a'))"
proof -
  have h: "trial_ok 2 ([[1, 2], [3, 4]], [[\<i>, 0], [0, 1]], [[1, 1], [1, 1]], [[0, \<i>], [2, 0]])"
    by (simp add: trial_ok_def is_mat_def)
  have s: "acc_shape (2 * 2) (G1_mat (2 * 2))"
    by (simp add: acc_shape_def G1_mat_def is_mat_zeros)
  from update_shape_dagger [OF h, of "G1_mat (2 * 2)" 3] s h show ?thesis by blast
qed

lemma add_outer_hermitian:
  assumes "add_outer A (map cnj x, x) N = Some A'" and "hermitian A"
  shows "hermitian A'"
proof -
  let ?L = "length x"
  have A: "is_mat ?L ?L A" and A': "is_mat ?L ?L A'"
    using add_outer_Some(1,2) [OF assms(1)] by simp_all
  have e: "\<And>i j. i < ?L \<Longrightarrow> j < ?L \<Longrightarrow> A' ! i ! j = A ! i ! j + cnj (x ! i) * x ! j / of_nat N"
    using add_outer_Some(3) [OF assms(1)] by simp
  have h: "cnj (A ! j ! i) = A ! i ! j" if "i < ?L" "j < ?L" for i j
  proof -
    have "ctranspose A ! i ! j = cnj (A ! j ! i)" using A that by (rule nth_ctranspose)
    moreover have "ctranspose A = A" using assms(2) by (simp only: hermitian_def)
    ultimately show ?thesis by (simp only:)
  qed
  have "ctranspose A' = A'"
  proof (rule mat_eqI [OF is_mat_ctranspose [OF A'] A'])
    fix i j assume ij: "i < ?L" "j < ?L"
    then show "ctranspose A' ! i ! j = A' ! i ! j"
      by (simp add: nth_ctranspose [OF A'] e h)
  qed
  then show ?thesis by (simp add: hermitian_def)
qed

lemma hermitian_zeros: "hermitian (zeros L L)"
  unfolding hermitian_def
  by (rule mat_eqI [OF is_mat_ctranspose [OF is_mat_zeros] is_mat_zeros])
     (simp add: nth_ctranspose [OF is_mat_zeros] nth_zeros)

lemma G1_update_hermitian:
  assumes "G1_update a s_out s_vac i_out i_vac N = Some a'"
    and "hermitian (ii a)" "hermitian (ss a)"
  shows "hermitian (ii a') \<and> hermitian (ss a')"
proof -
  from assms(1) obtain ii' ss' si' where
    1: "add_outer (ii a) (map cnj (flatten i_vac), flatten i_vac) N = Some ii'"
    and 2: "add_outer (ss a) (map cnj (flatten s_vac), flatten s_vac) N = Some ss'"
    and a': "a' = \<lparr>ii = ii', ss = ss', si = si', si_dagger = ctranspose si'\<rparr>"
    unfolding G1_update_def Let_def by (rule acc_update_Some) simp
  show ?thesis
    using add_outer_hermitian [OF 1 assms(2)] add_outer_hermitian [OF 2 assms(3)]
    by (simp add: a')
qed

lemma G1_updates_hermitian:
  "G1_updates N a ts = Some a' \<Longrightarrow> hermitian (ii a) \<Longrightarrow> hermitian (ss a) \<Longrightarrow>
   hermitian (ii a') \<and> hermitian (ss a')"
proof (induction N a ts rule: G1_updates.induct)
  case (1 N a)
  then show ?case by simp
next
  case (2 N a s_out s_vac i_out i_vac ts)
  from "2.prems"(1) obtain b where
    b: "G1_update a s_out s_vac i_out i_vac N = Some b" and r: "G1_updates N b ts = Some a'"
    by (auto split: option.splits)
  have "hermitian (ii b) \<and> hermitian (ss b)"
    using b "2.prems"(2,3) by (rule G1_update_hermitian)
  then show ?case using "2.IH" [OF b r] by simp
qed

text \<open>
  Claim C5. After any number of completed updates of the G1 accumulator, starting from
  the fresh accumulator, \<open>ii\<close> and \<open>ss\<close> are Hermitian. The list \<open>ts\<close> holds the trials
  processed so far; it may be empty.
\<close>

theorem G1_ii_ss_hermitian:
  assumes "G1_updates N (G1_mat L) ts = Some a"
  shows "hermitian (ii a) \<and> hermitian (ss a)"
  using assms by (rule G1_updates_hermitian) (simp_all add: G1_mat_def hermitian_zeros)

lemma is_mat_mat_div: "is_mat r c S \<Longrightarrow> is_mat r c (mat_div S N)"
  by (simp add: is_mat_iff mat_div_def)

lemma nth_mat_div:
  "is_mat r c S \<Longrightarrow> i < r \<Longrightarrow> j < c \<Longrightarrow> mat_div S N ! i ! j = S ! i ! j / of_nat N"
  by (simp add: is_mat_iff mat_div_def)

lemma is_mat_mat_add: "is_mat r c A \<Longrightarrow> is_mat r c B \<Longrightarrow> is_mat r c (mat_add A B)"
  unfolding mat_add_def by (rule is_mat_map2)

lemma nth_mat_add:
  "is_mat r c A \<Longrightarrow> is_mat r c B \<Longrightarrow> i < r \<Longrightarrow> j < c \<Longrightarrow>
   mat_add A B ! i ! j = A ! i ! j + B ! i ! j"
  unfolding mat_add_def by (rule nth_map2_map2)

lemma mat_div_zeros: "mat_div (zeros r c) N = zeros r c"
  by (simp add: mat_div_def zeros_def)

lemma mat_div_add_outer:
  assumes S: "is_mat (length u) (length v) S"
  shows "add_outer (mat_div S N) (u, v) N = Some (mat_div (mat_add S (outer u v)) N)"
proof -
  let ?r = "length u" and ?c = "length v"
  have D: "is_mat ?r ?c (mat_div S N)" using S by (rule is_mat_mat_div)
  obtain A' where A': "add_outer (mat_div S N) (u, v) N = Some A'"
    using add_outer_total [of "(u, v)" "mat_div S N" N] D by auto
  have mA': "is_mat ?r ?c A'" using add_outer_Some(2) [OF A'] by simp
  have mR: "is_mat ?r ?c (mat_div (mat_add S (outer u v)) N)"
    by (intro is_mat_mat_div is_mat_mat_add S is_mat_outer)
  have "A' = mat_div (mat_add S (outer u v)) N"
  proof (rule mat_eqI [OF mA' mR])
    fix i j assume ij: "i < ?r" "j < ?c"
    have "A' ! i ! j = mat_div S N ! i ! j + u ! i * v ! j / of_nat N"
      using add_outer_Some(3) [OF A'] ij by simp
    also have "\<dots> = S ! i ! j / of_nat N + u ! i * v ! j / of_nat N"
      using S ij by (simp add: nth_mat_div)
    also have "\<dots> = (S ! i ! j + outer u v ! i ! j) / of_nat N"
      using ij by (simp add: nth_outer add_divide_distrib)
    also have "\<dots> = mat_div (mat_add S (outer u v)) N ! i ! j"
      using ij S by (simp add: nth_mat_div [OF is_mat_mat_add [OF S is_mat_outer]]
          nth_mat_add [OF S is_mat_outer])
    finally show "A' ! i ! j = mat_div (mat_add S (outer u v)) N ! i ! j" .
  qed
  then show ?thesis using A' by simp
qed

lemma is_mat_add_pair:
  "is_mat L L S \<Longrightarrow> length (fst p) = L \<Longrightarrow> length (snd p) = L \<Longrightarrow> is_mat L L (add_pair S p)"
  unfolding add_pair_def using is_mat_outer [of "fst p" "snd p"] by (simp add: is_mat_mat_add)

lemma add_outer_add_pair:
  assumes "is_mat L L S" "length (fst p) = L" "length (snd p) = L"
  shows "add_outer (mat_div S N) p N = Some (mat_div (add_pair S p) N)"
  using mat_div_add_outer [of "fst p" "snd p" S N] assms by (simp add: add_pair_def)

lemma acc_update_sum:
  assumes "is_mat L L S1" "is_mat L L S2" "is_mat L L S3"
    and "length (fst p1) = L" "length (snd p1) = L"
    and "length (fst p2) = L" "length (snd p2) = L"
    and "length (fst p3) = L" "length (snd p3) = L"
    and "ii a = mat_div S1 N" "ss a = mat_div S2 N" "si a = mat_div S3 N"
  shows "\<exists>a'. acc_update a p1 p2 p3 N = Some a' \<and> ii a' = mat_div (add_pair S1 p1) N
           \<and> ss a' = mat_div (add_pair S2 p2) N \<and> si a' = mat_div (add_pair S3 p3) N"
  using assms by (simp add: acc_update_def add_outer_add_pair)

lemma G1_updates_sum:
  "list_all (trial_ok M) ts \<Longrightarrow>
   is_mat (M * M) (M * M) S1 \<Longrightarrow> is_mat (M * M) (M * M) S2 \<Longrightarrow> is_mat (M * M) (M * M) S3 \<Longrightarrow>
   ii a = mat_div S1 N \<Longrightarrow> ss a = mat_div S2 N \<Longrightarrow> si a = mat_div S3 N \<Longrightarrow>
   \<exists>a'. G1_updates N a ts = Some a'
      \<and> ii a' = mat_div (foldl add_pair S1 (map G1_pair_ii ts)) N
      \<and> ss a' = mat_div (foldl add_pair S2 (map G1_pair_ss ts)) N
      \<and> si a' = mat_div (foldl add_pair S3 (map G1_pair_si ts)) N"
proof (induction ts arbitrary: a S1 S2 S3)
  case Nil
  then show ?case by simp
next
  case (Cons t ts)
  obtain s_out s_vac i_out i_vac where t: "t = (s_out, s_vac, i_out, i_vac)"
    by (cases t) auto
  have ok: "trial_ok M t" and oks: "list_all (trial_ok M) ts" using Cons.prems(1) by simp_all
  note len = G1_pair_lengths [OF ok]
  obtain b where b: "acc_update a (G1_pair_ii t) (G1_pair_ss t) (G1_pair_si t) N = Some b"
    and bi: "ii b = mat_div (add_pair S1 (G1_pair_ii t)) N"
    and bs: "ss b = mat_div (add_pair S2 (G1_pair_ss t)) N"
    and bx: "si b = mat_div (add_pair S3 (G1_pair_si t)) N"
    using acc_update_sum [OF Cons.prems(2,3,4) len Cons.prems(5,6,7)] by blast
  have m1: "is_mat (M * M) (M * M) (add_pair S1 (G1_pair_ii t))"
    using Cons.prems(2) len(1,2) by (rule is_mat_add_pair)
  have m2: "is_mat (M * M) (M * M) (add_pair S2 (G1_pair_ss t))"
    using Cons.prems(3) len(3,4) by (rule is_mat_add_pair)
  have m3: "is_mat (M * M) (M * M) (add_pair S3 (G1_pair_si t))"
    using Cons.prems(4) len(5,6) by (rule is_mat_add_pair)
  have step: "G1_updates N a (t # ts) = G1_updates N b ts"
    using b by (simp add: t G1_update_def)
  show ?case using Cons.IH [OF oks m1 m2 m3 bi bs bx] by (simp add: step)
qed

lemma Q_updates_sum:
  "list_all (trial_ok M) ts \<Longrightarrow>
   is_mat (M * M) (M * M) S1 \<Longrightarrow> is_mat (M * M) (M * M) S2 \<Longrightarrow> is_mat (M * M) (M * M) S3 \<Longrightarrow>
   ii a = mat_div S1 N \<Longrightarrow> ss a = mat_div S2 N \<Longrightarrow> si a = mat_div S3 N \<Longrightarrow>
   \<exists>a'. Q_updates N a ts = Some a'
      \<and> ii a' = mat_div (foldl add_pair S1 (map Q_pair_ii ts)) N
      \<and> ss a' = mat_div (foldl add_pair S2 (map Q_pair_ss ts)) N
      \<and> si a' = mat_div (foldl add_pair S3 (map Q_pair_si ts)) N"
proof (induction ts arbitrary: a S1 S2 S3)
  case Nil
  then show ?case by simp
next
  case (Cons t ts)
  obtain s_out s_vac i_out i_vac where t: "t = (s_out, s_vac, i_out, i_vac)"
    by (cases t) auto
  have ok: "trial_ok M t" and oks: "list_all (trial_ok M) ts" using Cons.prems(1) by simp_all
  note len = Q_pair_lengths [OF ok]
  obtain b where b: "acc_update a (Q_pair_ii t) (Q_pair_ss t) (Q_pair_si t) N = Some b"
    and bi: "ii b = mat_div (add_pair S1 (Q_pair_ii t)) N"
    and bs: "ss b = mat_div (add_pair S2 (Q_pair_ss t)) N"
    and bx: "si b = mat_div (add_pair S3 (Q_pair_si t)) N"
    using acc_update_sum [OF Cons.prems(2,3,4) len Cons.prems(5,6,7)] by blast
  have m1: "is_mat (M * M) (M * M) (add_pair S1 (Q_pair_ii t))"
    using Cons.prems(2) len(1,2) by (rule is_mat_add_pair)
  have m2: "is_mat (M * M) (M * M) (add_pair S2 (Q_pair_ss t))"
    using Cons.prems(3) len(3,4) by (rule is_mat_add_pair)
  have m3: "is_mat (M * M) (M * M) (add_pair S3 (Q_pair_si t))"
    using Cons.prems(4) len(5,6) by (rule is_mat_add_pair)
  have step: "Q_updates N a (t # ts) = Q_updates N b ts"
    using b by (simp add: t Q_update_def)
  show ?case using Cons.IH [OF oks m1 m2 m3 bi bs bx] by (simp add: step)
qed

text \<open>
  Claim C2, amended. After \<open>k\<close> calls of \<^verbatim>\<open>update\<close> with the argument \<open>N\<close>, where
  \<open>1 \<le> k \<le> N\<close>, each of \<open>ii\<close>, \<open>ss\<close>, \<open>si\<close> of G1 and of Q is the sum of the \<open>k\<close>
  outer products of the trials so far divided by \<open>N\<close>, the total trial count, not by \<open>k\<close>.
  It is the arithmetic mean of the \<open>k\<close> outer products when \<open>k = N\<close>.
\<close>

theorem running_sum_over_N:
  assumes "list_all (trial_ok M) ts" and "1 \<le> length ts" and "length ts \<le> N"
  shows "\<exists>g q. G1_updates N (G1_mat (M * M)) ts = Some g
       \<and> Q_updates N (Q_mat (M * M)) ts = Some q
       \<and> ii g = mat_div (sum_outer (M * M) (map G1_pair_ii ts)) N
       \<and> ss g = mat_div (sum_outer (M * M) (map G1_pair_ss ts)) N
       \<and> si g = mat_div (sum_outer (M * M) (map G1_pair_si ts)) N
       \<and> ii q = mat_div (sum_outer (M * M) (map Q_pair_ii ts)) N
       \<and> ss q = mat_div (sum_outer (M * M) (map Q_pair_ss ts)) N
       \<and> si q = mat_div (sum_outer (M * M) (map Q_pair_si ts)) N
       \<and> (length ts = N \<longrightarrow>
            ii g = mean_outer (M * M) (map G1_pair_ii ts)
          \<and> ss g = mean_outer (M * M) (map G1_pair_ss ts)
          \<and> si g = mean_outer (M * M) (map G1_pair_si ts)
          \<and> ii q = mean_outer (M * M) (map Q_pair_ii ts)
          \<and> ss q = mean_outer (M * M) (map Q_pair_ss ts)
          \<and> si q = mean_outer (M * M) (map Q_pair_si ts))"
proof -
  let ?L = "M * M"
  have z: "is_mat ?L ?L (zeros ?L ?L :: cmat)" by (rule is_mat_zeros)
  have f: "sum_outer ?L ps = foldl add_pair (zeros ?L ?L) ps" for ps
    by (simp add: sum_outer_def)
  obtain g where g: "G1_updates N (G1_mat ?L) ts = Some g"
    and g1: "ii g = mat_div (sum_outer ?L (map G1_pair_ii ts)) N"
    and g2: "ss g = mat_div (sum_outer ?L (map G1_pair_ss ts)) N"
    and g3: "si g = mat_div (sum_outer ?L (map G1_pair_si ts)) N"
    using G1_updates_sum [OF assms(1) z z z, of "G1_mat ?L" N]
    by (auto simp: G1_mat_def mat_div_zeros f)
  obtain q where q: "Q_updates N (Q_mat ?L) ts = Some q"
    and q1: "ii q = mat_div (sum_outer ?L (map Q_pair_ii ts)) N"
    and q2: "ss q = mat_div (sum_outer ?L (map Q_pair_ss ts)) N"
    and q3: "si q = mat_div (sum_outer ?L (map Q_pair_si ts)) N"
    using Q_updates_sum [OF assms(1) z z z, of "Q_mat ?L" N]
    by (auto simp: Q_mat_def mat_div_zeros f)
  show ?thesis
    using g g1 g2 g3 q q1 q2 q3 by (simp add: mean_outer_def)
qed

theorem running_sum_over_N_witness:
  "list_all (trial_ok 1) [([[1]], [[\<i>]], [[2]], [[1]]), ([[3]], [[1]], [[\<i>]], [[2]])]
   \<and> (\<exists>g. G1_updates 2 (G1_mat (1 * 1)) [([[1]], [[\<i>]], [[2]], [[1]]), ([[3]], [[1]], [[\<i>]], [[2]])] = Some g
        \<and> ii g = mat_div (sum_outer (1 * 1)
              (map G1_pair_ii [([[1]], [[\<i>]], [[2]], [[1]]), ([[3]], [[1]], [[\<i>]], [[2]])])) 2
        \<and> ii g = mean_outer (1 * 1)
              (map G1_pair_ii [([[1]], [[\<i>]], [[2]], [[1]]), ([[3]], [[1]], [[\<i>]], [[2]])]))"
proof -
  let ?ts = "[([[1]], [[\<i>]], [[2]], [[1]]), ([[3]], [[1]], [[\<i>]], [[2]])] :: trial list"
  have h1: "list_all (trial_ok 1) ?ts" by (simp add: trial_ok_def is_mat_def)
  have h2: "1 \<le> length ?ts" by simp
  have h3: "length ?ts \<le> 2" by simp
  have h4: "length ?ts = 2" by simp
  from running_sum_over_N [OF h1 h2 h3] h1 h4 show ?thesis by blast
qed

text \<open>
  Claim C2 as stated fails: with \<open>N = 2\<close>, after the first update (\<open>k = 1\<close>) on a grid of
  one point with all amplitudes 1, \<open>ii\<close> of G1 is 1/2, and the mean of the one outer
  product is 1.
\<close>

theorem running_mean_counterexample:
  "(1::nat) \<le> 1 \<and> (1::nat) \<le> 2
   \<and> map_option ii (G1_updates 2 (G1_mat (1 * 1)) [([[1]], [[1]], [[1]], [[1]])]) = Some [[1 / 2]]
   \<and> mean_outer (1 * 1) (map G1_pair_ii [([[1]], [[1]], [[1]], [[1]])]) = [[1]]
   \<and> [[1 / 2]] \<noteq> [[1 :: complex]]"
  by (simp add: G1_update_def acc_update_def add_outer_def outer_def same_shape_def
      flatten_def zeros_def G1_mat_def mean_outer_def sum_outer_def add_pair_def mat_add_def
      mat_div_def)

theorem G1_ii_ss_hermitian_witness:
  "\<exists>a. G1_updates 3 (G1_mat (2 * 2))
         [([[1, 2], [3, 4]], [[\<i>, 0], [0, 1]], [[1, 1], [1, 1]], [[0, \<i>], [2, 0]]),
          ([[0, 0], [0, 0]], [[1, \<i>], [\<i>, 1]], [[5, 1], [1, 5]], [[\<i>, \<i>], [1, 3]])] = Some a
       \<and> hermitian (ii a) \<and> hermitian (ss a)"
proof -
  let ?ts = "[([[1, 2], [3, 4]], [[\<i>, 0], [0, 1]], [[1, 1], [1, 1]], [[0, \<i>], [2, 0]]),
          ([[0, 0], [0, 0]], [[1, \<i>], [\<i>, 1]], [[5, 1], [1, 5]], [[\<i>, \<i>], [1, 3]])] :: trial list"
  have ok: "list_all (trial_ok 2) ?ts" by (simp add: trial_ok_def is_mat_def)
  have z: "is_mat (2 * 2) (2 * 2) (zeros (2 * 2) (2 * 2) :: cmat)" by (rule is_mat_zeros)
  obtain a where a: "G1_updates 3 (G1_mat (2 * 2)) ?ts = Some a"
    using G1_updates_sum [OF ok z z z, of "G1_mat (2 * 2)" 3]
    by (auto simp: G1_mat_def mat_div_zeros)
  from G1_ii_ss_hermitian [OF a] a show ?thesis by blast
qed

section \<open>Unwrapping and the indicator matrix\<close>

lemma nth_unwrap_kron:
  "i < M \<Longrightarrow> j < M \<Longrightarrow> k < M \<Longrightarrow> l < M \<Longrightarrow>
   unwrap_kron T M ! i ! j ! k ! l = T ! (i * M + k) ! (j * M + l)"
  by (simp add: unwrap_kron_def)

lemma is_mat_wrap_kron: "is_mat (M * M) (M * M) (wrap_kron C M)"
  by (simp add: is_mat_iff wrap_kron_def)

text \<open>
  Claim C6. For every grid size \<open>M\<close> and every M*M by M*M matrix \<open>T\<close>, unwrapping \<open>T\<close>
  to the four-index form and flattening it back with the same index map gives \<open>T\<close>
  again.
\<close>

theorem unwrap_wrap_roundtrip:
  assumes "is_mat (M * M) (M * M) T"
  shows "wrap_kron (unwrap_kron T M) M = T"
proof (rule mat_eqI [OF is_mat_wrap_kron assms])
  fix r c assume rc: "r < M * M" "c < M * M"
  then have M: "0 < M" by (cases M) simp_all
  have d: "r div M < M" "c div M < M"
    using rc by (simp_all add: less_mult_imp_div_less)
  have m: "r mod M < M" "c mod M < M" using M by simp_all
  have "wrap_kron (unwrap_kron T M) M ! r ! c
        = unwrap_kron T M ! (r div M) ! (c div M) ! (r mod M) ! (c mod M)"
    using rc by (simp add: wrap_kron_def)
  also have "\<dots> = T ! (r div M * M + r mod M) ! (c div M * M + c mod M)"
    using d m by (rule nth_unwrap_kron)
  finally show "wrap_kron (unwrap_kron T M) M ! r ! c = T ! r ! c" by simp
qed

theorem unwrap_wrap_roundtrip_witness:
  "is_mat (2 * 2) (2 * 2) [[1, 2, 3, 4], [5, 6, 7, 8], [9, 10, 11, 12], [13, 14, 15, 16 :: real]]
   \<and> wrap_kron (unwrap_kron [[1, 2, 3, 4], [5, 6, 7, 8], [9, 10, 11, 12], [13, 14, 15, 16 :: real]] 2) 2
       = [[1, 2, 3, 4], [5, 6, 7, 8], [9, 10, 11, 12], [13, 14, 15, 16]]"
proof -
  have h: "is_mat (2 * 2) (2 * 2)
     [[1, 2, 3, 4], [5, 6, 7, 8], [9, 10, 11, 12], [13, 14, 15, 16 :: real]]"
    by (simp add: is_mat_def)
  from unwrap_wrap_roundtrip [OF h] h show ?thesis by blast
qed

lemma Kron_diag_row:
  assumes "r < M * M"
  shows "Kron_diag M ! r
         = map (\<lambda>c. if r mod (M + 1) = 0 \<and> c mod (M + 1) = 0 then 1 else 0) [0..<M * M]"
  using assms
  by (simp add: Kron_diag_def index_update_stride_def zeros_def power2_eq_square)

lemma length_Kron_diag: "length (Kron_diag M) = M * M"
  by (simp add: Kron_diag_def index_update_stride_def zeros_def power2_eq_square)

lemma is_mat_Kron_diag: "is_mat (M * M) (M * M) (Kron_diag M)"
  by (simp add: is_mat_iff length_Kron_diag Kron_diag_row)

lemma nth_Kron_diag:
  "r < M * M \<Longrightarrow> c < M * M \<Longrightarrow>
   Kron_diag M ! r ! c = (if M + 1 dvd r \<and> M + 1 dvd c then 1 else 0)"
  by (simp add: Kron_diag_row mod_eq_0_iff_dvd)

lemma select_row:
  assumes "length row = n"
  shows "map fst (filter (\<lambda>(x, m). m \<noteq> 0)
            (zip row (map (\<lambda>c. if P c then 1 else (0::real)) [0..<n])))
         = map ((!) row) (filter P [0..<n])"
proof -
  have z: "zip row (map (\<lambda>c. if P c then 1 else (0::real)) [0..<n])
           = map (\<lambda>c. (row ! c, if P c then 1 else 0)) [0..<n]"
    using assms by (intro nth_equalityI) simp_all
  show ?thesis
    unfolding z by (simp add: filter_map comp_def cong: filter_cong)
qed

lemma stride_indices:
  "filter (\<lambda>c. c mod (M + 1) = 0) [0..<M * M] = map (\<lambda>j. j * (M + 1)) [0..<M]"
proof (rule sorted_distinct_set_unique)
  show "sorted (filter (\<lambda>c. c mod (M + 1) = 0) [0..<M * M])" by (simp add: sorted_wrt_filter)
  show "distinct (filter (\<lambda>c. c mod (M + 1) = 0) [0..<M * M])" by simp
  show "sorted (map (\<lambda>j. j * (M + 1)) [0..<M])"
    by (auto simp: sorted_map sorted_wrt_iff_nth_less intro!: add_mono mult_le_mono1)
  show "distinct (map (\<lambda>j. j * (M + 1)) [0..<M])"
  proof -
    have "inj_on (\<lambda>j. j * (M + 1)) (set [0..<M])"
    proof (rule inj_onI)
      fix x y assume "x * (M + 1) = y * (M + 1)"
      then have "x = y \<or> M + 1 = 0" by (simp only: mult_cancel2)
      then show "x = y" by simp
    qed
    then show ?thesis by (simp only: distinct_map distinct_upt)
  qed
  show "set (filter (\<lambda>c. c mod (M + 1) = 0) [0..<M * M]) = set (map (\<lambda>j. j * (M + 1)) [0..<M])"
  proof (intro set_eqI iffI)
    fix c assume "c \<in> set (filter (\<lambda>c. c mod (M + 1) = 0) [0..<M * M])"
    then have c: "c < M * M" and "c mod (M + 1) = 0" by simp_all
    then have "M + 1 dvd c" by (simp only: mod_eq_0_iff_dvd)
    then obtain q where "c = (M + 1) * q" by (rule dvdE)
    then have q: "c = q * (M + 1)" by (simp only: mult.commute)
    have "q < M"
    proof (rule ccontr)
      assume "\<not> q < M"
      then have "M \<le> q" by simp
      then have "M * (M + 1) \<le> q * (M + 1)" by (rule mult_le_mono1)
      moreover have "M * (M + 1) = M * M + M" by (simp add: algebra_simps)
      ultimately have "M * M \<le> c" using q by linarith
      then show False using c by simp
    qed
    then show "c \<in> set (map (\<lambda>j. j * (M + 1)) [0..<M])" using q by simp
  next
    fix c assume "c \<in> set (map (\<lambda>j. j * (M + 1)) [0..<M])"
    then obtain j where j: "j < M" "c = j * (M + 1)" by auto
    then have "Suc j \<le> M" by simp
    then have "Suc j * (M + 1) \<le> M * (M + 1)" by (rule mult_le_mono1)
    moreover have "M * (M + 1) = M * M + M" by (simp add: algebra_simps)
    moreover have "Suc j * (M + 1) = c + M + 1" using j by (simp add: algebra_simps)
    ultimately have "c < M * M" by linarith
    moreover have "c mod (M + 1) = 0" unfolding j(2) by (rule mod_mult_self2_is_0)
    ultimately show "c \<in> set (filter (\<lambda>c. c mod (M + 1) = 0) [0..<M * M])"
      by (simp only: set_filter set_upt mem_Collect_eq atLeastLessThan_iff) simp
  qed
qed

lemma stride_indices_Suc:
  "filter (\<lambda>c. c mod Suc M = 0) [0..<M * M] = map (\<lambda>j. j * Suc M) [0..<M]"
  using stride_indices [of M] by simp

lemma concat_map_if:
  "concat (map (\<lambda>x. if P x then f x else []) xs) = concat (map f (filter P xs))"
  by (induction xs) simp_all

lemma mask_select_Kron_diag:
  assumes A: "is_mat (M * M) (M * M) A"
  shows "mask_select A (Kron_diag M)
         = Some (concat (map (\<lambda>i. map (\<lambda>j. A ! (i * (M + 1)) ! (j * (M + 1))) [0..<M]) [0..<M]))"
proof -
  let ?sel = "\<lambda>row krow. map fst (filter (\<lambda>(x, m). m \<noteq> (0::real)) (zip row krow))"
  let ?blk = "\<lambda>r. map (\<lambda>j. A ! r ! (j * (M + 1))) [0..<M]"
  have s: "same_shape A (Kron_diag M)"
    using A is_mat_Kron_diag by (rule is_mat_same_shape)
  have lenA: "length A = M * M" using A by (simp add: is_mat_iff)
  have rows: "map2 ?sel A (Kron_diag M)
              = map (\<lambda>r. if r mod (M + 1) = 0 then ?blk r else []) [0..<M * M]"
  proof (rule nth_equalityI)
    show "length (map2 ?sel A (Kron_diag M))
          = length (map (\<lambda>r. if r mod (M + 1) = 0 then ?blk r else []) [0..<M * M])"
      by (simp add: lenA length_Kron_diag)
  next
    fix r assume "r < length (map2 ?sel A (Kron_diag M))"
    then have r: "r < M * M" by (simp add: lenA length_Kron_diag)
    have lr: "length (A ! r) = M * M" using A r by (simp add: is_mat_iff)
    have "map2 ?sel A (Kron_diag M) ! r = ?sel (A ! r) (Kron_diag M ! r)"
      using r by (simp add: lenA length_Kron_diag)
    also have "\<dots> = map ((!) (A ! r))
                       (filter (\<lambda>c. r mod (M + 1) = 0 \<and> c mod (M + 1) = 0) [0..<M * M])"
      unfolding Kron_diag_row [OF r] using lr by (rule select_row)
    also have "\<dots> = (if r mod (M + 1) = 0 then ?blk r else [])"
      by (simp add: stride_indices_Suc comp_def)
    finally show "map2 ?sel A (Kron_diag M) ! r
                  = map (\<lambda>r. if r mod (M + 1) = 0 then ?blk r else []) [0..<M * M] ! r"
      using r by simp
  qed
  have "concat (map2 ?sel A (Kron_diag M))
        = concat (map ?blk (filter (\<lambda>r. r mod (M + 1) = 0) [0..<M * M]))"
    unfolding rows by (rule concat_map_if)
  also have "\<dots> = concat (map (\<lambda>i. ?blk (i * (M + 1))) [0..<M])"
    by (simp add: stride_indices_Suc comp_def)
  finally show ?thesis using s by (simp add: mask_select_def)
qed

lemma take_drop_concat:
  "\<forall>b \<in> set bs. length b = c \<Longrightarrow> i < length bs \<Longrightarrow> take c (drop (i * c) (concat bs)) = bs ! i"
proof (induction bs arbitrary: i)
  case Nil
  then show ?case by simp
next
  case (Cons b bs)
  show ?case
  proof (cases i)
    case 0
    then show ?thesis using Cons.prems by simp
  next
    case (Suc i')
    then have "take c (drop (i * c) (concat (b # bs))) = take c (drop (i' * c) (concat bs))"
      using Cons.prems by simp
    then show ?thesis using Cons.IH [of i'] Cons.prems Suc by simp
  qed
qed

lemma length_concat_blocks:
  "\<forall>b \<in> set bs. length b = c \<Longrightarrow> length (concat bs) = length bs * c"
  by (induction bs) simp_all

lemma reshape_concat:
  assumes "\<And>i. i < r \<Longrightarrow> length (f i) = c"
  shows "reshape (concat (map f [0..<r])) r c = Some (map f [0..<r])"
proof -
  let ?bs = "map f [0..<r]"
  have b: "\<forall>b \<in> set ?bs. length b = c" using assms by auto
  have l: "length (concat ?bs) = r * c" using length_concat_blocks [OF b] by simp
  have "map (\<lambda>i. take c (drop (i * c) (concat ?bs))) [0..<r] = ?bs"
  proof (rule nth_equalityI)
    show "length (map (\<lambda>i. take c (drop (i * c) (concat ?bs))) [0..<r]) = length ?bs" by simp
  next
    fix i assume "i < length (map (\<lambda>i. take c (drop (i * c) (concat ?bs))) [0..<r])"
    then have i: "i < r" by simp
    then have "take c (drop (i * c) (concat ?bs)) = ?bs ! i"
      using take_drop_concat [OF b, of i] by simp
    then show "map (\<lambda>i. take c (drop (i * c) (concat ?bs))) [0..<r] ! i = ?bs ! i"
      using i by simp
  qed
  then show ?thesis using l by (simp add: reshape_def)
qed

lemma photodetection_Kron_diag:
  assumes A: "is_mat (M * M) (M * M) A"
  shows "photodetection A (Kron_diag M) M nrm = Some (P_loop (unwrap_kron A M) M nrm)"
proof -
  let ?f = "\<lambda>i. map (\<lambda>j. A ! (i * (M + 1)) ! (j * (M + 1))) [0..<M]"
  have r: "reshape (concat (map ?f [0..<M])) M M = Some (map ?f [0..<M])"
    by (rule reshape_concat) simp
  have m: "mask_select A (Kron_diag M) = Some (concat (map ?f [0..<M]))"
    using A by (rule mask_select_Kron_diag)
  have "photodetection A (Kron_diag M) M nrm
        = Some (map (map (\<lambda>z. z / of_real nrm)) (map ?f [0..<M]))"
    by (simp only: photodetection_def m r option.case)
  also have "map (map (\<lambda>z. z / of_real nrm)) (map ?f [0..<M]) = P_loop (unwrap_kron A M) M nrm"
    by (simp add: P_loop_def nth_unwrap_kron comp_def add.commute)
  finally show ?thesis .
qed

text \<open>
  Claim C8. The indicator matrix is M*M by M*M with entries 0 and 1, and its ones are
  exactly at the rows and columns that are multiples of \<open>M + 1\<close>. Selecting the entries
  of an M*M by M*M matrix \<open>A\<close> (the \<open>ii\<close> or the \<open>ss\<close> of G1) where the indicator is not
  zero, reshaping to M by M and normalising (lines 211 and 212) succeeds and gives the
  array of the double loop \<open>P[i, j] = G1[i, j, i, j] / norm\<close> on the unwrapped form of
  \<open>A\<close>.
\<close>

theorem Kron_diag_photodetection:
  assumes "is_mat (M * M) (M * M) A"
  shows "is_mat (M * M) (M * M) (Kron_diag M)
       \<and> (\<forall>r<M * M. \<forall>c<M * M.
            Kron_diag M ! r ! c = (if M + 1 dvd r \<and> M + 1 dvd c then 1 else 0))
       \<and> photodetection A (Kron_diag M) M nrm = Some (P_loop (unwrap_kron A M) M nrm)"
  using is_mat_Kron_diag nth_Kron_diag photodetection_Kron_diag [OF assms] by simp

section \<open>The composed G2 and the trial loop\<close>


lemma nth_ew_mul:
  "is_mat r c A \<Longrightarrow> is_mat r c B \<Longrightarrow> i < r \<Longrightarrow> j < c \<Longrightarrow>
   ew_mul A B ! i ! j = A ! i ! j * B ! i ! j"
  unfolding ew_mul_def by (rule nth_map2_map2)

lemma is_mat_ew_mul: "is_mat r c A \<Longrightarrow> is_mat r c B \<Longrightarrow> is_mat r c (ew_mul A B)"
  unfolding ew_mul_def by (rule is_mat_map2)

lemma is_mat_np_real: "is_mat r c A \<Longrightarrow> is_mat r c (np_real A)"
  by (simp add: is_mat_iff np_real_def)

lemma nth_np_real: "is_mat r c A \<Longrightarrow> i < r \<Longrightarrow> j < c \<Longrightarrow> np_real A ! i ! j = Re (A ! i ! j)"
  by (simp add: is_mat_iff np_real_def)

lemma compose_G2_entries:
  assumes g: "acc_shape L g" and q: "acc_shape L q"
  shows "is_mat L L (compose_G2 g q)"
    and "\<And>r c. r < L \<Longrightarrow> c < L \<Longrightarrow>
           compose_G2 g q ! r ! c
           = Re (ii g ! r ! c * ss g ! r ! c + si_dagger q ! r ! c * si q ! r ! c
                 + si_dagger g ! r ! c * si g ! r ! c)"
proof -
  have m: "is_mat L L (ii g)" "is_mat L L (ss g)" "is_mat L L (si g)" "is_mat L L (si_dagger g)"
    "is_mat L L (si q)" "is_mat L L (si_dagger q)"
    using g q by (simp_all add: acc_shape_def)
  have a: "is_mat L L (ew_mul (ii g) (ss g))" using m(1,2) by (rule is_mat_ew_mul)
  have b: "is_mat L L (ew_mul (si_dagger q) (si q))" using m(6,5) by (rule is_mat_ew_mul)
  have c: "is_mat L L (ew_mul (si_dagger g) (si g))" using m(4,3) by (rule is_mat_ew_mul)
  have ab: "is_mat L L (mat_add (ew_mul (ii g) (ss g)) (ew_mul (si_dagger q) (si q)))"
    using a b by (rule is_mat_mat_add)
  have abc: "is_mat L L (mat_add (mat_add (ew_mul (ii g) (ss g)) (ew_mul (si_dagger q) (si q)))
                 (ew_mul (si_dagger g) (si g)))"
    using ab c by (rule is_mat_mat_add)
  show "is_mat L L (compose_G2 g q)"
    unfolding compose_G2_def using abc by (rule is_mat_np_real)
  fix r c' assume rc: "r < L" "c' < L"
  show "compose_G2 g q ! r ! c'
        = Re (ii g ! r ! c' * ss g ! r ! c' + si_dagger q ! r ! c' * si q ! r ! c'
              + si_dagger g ! r ! c' * si g ! r ! c')"
    unfolding compose_G2_def
    by (simp only: nth_np_real [OF abc rc] nth_mat_add [OF ab c rc] nth_mat_add [OF a b rc]
        nth_ew_mul [OF m(1,2) rc] nth_ew_mul [OF m(6,5) rc] nth_ew_mul [OF m(4,3) rc])
qed

text \<open>
  Claim C7. Let the matrices of G1 and Q be square of side \<open>L\<close>, \<open>ii\<close> and \<open>ss\<close> of G1
  Hermitian with non-negative diagonals, and \<open>si_dagger\<close> the conjugate transpose of
  \<open>si\<close> in both accumulators. Then every diagonal entry of the composed G2, a real
  number, is non-negative.
\<close>

theorem G2_diagonal_nonneg:
  assumes "acc_shape L g" and "acc_shape L q"
    and "hermitian (ii g)" and "hermitian (ss g)"
    and "\<forall>j<L. 0 \<le> Re (ii g ! j ! j) \<and> 0 \<le> Re (ss g ! j ! j)"
    and "si_dagger g = ctranspose (si g)" and "si_dagger q = ctranspose (si q)"
    and "k < L"
  shows "0 \<le> compose_G2 g q ! k ! k"
proof -
  have m: "is_mat L L (ii g)" "is_mat L L (ss g)" "is_mat L L (si g)" "is_mat L L (si q)"
    using assms(1,2) by (simp_all add: acc_shape_def)
  have "cnj (ii g ! k ! k) = ctranspose (ii g) ! k ! k"
    using m(1) assms(8) by (simp add: nth_ctranspose)
  then have i0: "Im (ii g ! k ! k) = 0"
    using assms(3) by (simp add: hermitian_def complex_eq_iff)
  have "cnj (ss g ! k ! k) = ctranspose (ss g) ! k ! k"
    using m(2) assms(8) by (simp add: nth_ctranspose)
  then have s0: "Im (ss g ! k ! k) = 0"
    using assms(4) by (simp add: hermitian_def complex_eq_iff)
  have p1: "0 \<le> Re (ii g ! k ! k * ss g ! k ! k)"
    using assms(5,8) i0 s0 by simp
  have dg: "si_dagger g ! k ! k = cnj (si g ! k ! k)"
    using m(3) assms(6,8) by (simp add: nth_ctranspose)
  have dq: "si_dagger q ! k ! k = cnj (si q ! k ! k)"
    using m(4) assms(7,8) by (simp add: nth_ctranspose)
  have p2: "0 \<le> Re (si_dagger q ! k ! k * si q ! k ! k)" by (simp add: dq)
  have p3: "0 \<le> Re (si_dagger g ! k ! k * si g ! k ! k)" by (simp add: dg)
  have "compose_G2 g q ! k ! k
        = Re (ii g ! k ! k * ss g ! k ! k) + Re (si_dagger q ! k ! k * si q ! k ! k)
          + Re (si_dagger g ! k ! k * si g ! k ! k)"
    using compose_G2_entries(2) [OF assms(1,2) assms(8) assms(8)] by (simp only: plus_complex.sel)
  then show ?thesis using p1 p2 p3 by linarith
qed

lemma add_outer_keeps_shape:
  assumes "add_outer A p N = Some A'" and "is_mat r c A"
  shows "is_mat r c A'"
proof -
  let ?P = "outer (fst p) (snd p)"
  from assms(1) have s: "same_shape A ?P"
    and A': "A' = map2 (map2 (\<lambda>a x. a + x / of_nat N)) A ?P"
    by (auto simp: add_outer_def Let_def split: if_splits)
  have "same_shape ?P A" using s by (simp add: same_shape_def)
  then have "is_mat r c ?P" using assms(2) by (rule same_shape_is_mat)
  with assms(2) show ?thesis unfolding A' by (rule is_mat_map2)
qed

lemma acc_update_keeps_shape:
  assumes "acc_update a p1 p2 p3 N = Some a'" and "acc_shape L a"
  shows "acc_shape L a'"
proof -
  from assms(1) obtain ii' ss' si' where
    1: "add_outer (ii a) p1 N = Some ii'" and 2: "add_outer (ss a) p2 N = Some ss'"
    and 3: "add_outer (si a) p3 N = Some si'"
    and a': "a' = \<lparr>ii = ii', ss = ss', si = si', si_dagger = ctranspose si'\<rparr>"
    by (rule acc_update_Some)
  have m: "is_mat L L (ii a)" "is_mat L L (ss a)" "is_mat L L (si a)"
    using assms(2) by (simp_all add: acc_shape_def)
  have "is_mat L L si'" using 3 m(3) by (rule add_outer_keeps_shape)
  then show ?thesis
    using add_outer_keeps_shape [OF 1 m(1)] add_outer_keeps_shape [OF 2 m(2)]
    by (simp add: a' acc_shape_def is_mat_ctranspose)
qed

lemma accumulate_keeps_shape:
  assumes "accumulate N t s = Some s'" and "acc_shape L (G1_acc s)" and "acc_shape L (Q_acc s)"
  shows "acc_shape L (G1_acc s') \<and> acc_shape L (Q_acc s')"
proof -
  obtain a b c d where t: "t = (a, b, c, d)" by (cases t) auto
  from assms(1) obtain g q where g: "G1_update (G1_acc s) a b c d N = Some g"
    and q: "Q_update (Q_acc s) a b c d N = Some q" and s': "s' = \<lparr>G1_acc = g, Q_acc = q\<rparr>"
    by (auto simp: accumulate_def t split: option.splits)
  have "acc_shape L g"
    using g assms(2) unfolding G1_update_def Let_def by (rule acc_update_keeps_shape)
  moreover have "acc_shape L q"
    using q assms(3) unfolding Q_update_def Let_def by (rule acc_update_keeps_shape)
  ultimately show ?thesis by (simp add: s')
qed

lemma for_range_keeps_shape:
  assumes "for_range (\<lambda>n. accumulate N (f n)) k s = Some s'"
    and "acc_shape L (G1_acc s)" and "acc_shape L (Q_acc s)"
  shows "acc_shape L (G1_acc s') \<and> acc_shape L (Q_acc s')"
  using assms
proof (induction k arbitrary: s')
  case 0
  then show ?case by simp
next
  case (Suc k)
  from Suc.prems(1) obtain m where m: "for_range (\<lambda>n. accumulate N (f n)) k s = Some m"
    and s': "accumulate N (f k) m = Some s'"
    by (auto split: option.splits)
  have "acc_shape L (G1_acc m) \<and> acc_shape L (Q_acc m)"
    using Suc.IH [OF m Suc.prems(2,3)] .
  then show ?case using accumulate_keeps_shape [OF s'] by simp
qed

lemma acc_shape_fresh: "acc_shape L (G1_mat L)" "acc_shape L (Q_mat L)"
  by (simp_all add: acc_shape_def G1_mat_def Q_mat_def is_mat_zeros)

lemma after_trials_shape:
  assumes "after_trials e c k = Some s"
  shows "acc_shape (M_size c * M_size c) (G1_acc s) \<and> acc_shape (M_size c * M_size c) (Q_acc s)"
proof (cases "IS_INDISTIGUISHABLE c")
  case True
  with assms show ?thesis
    unfolding after_trials_def Let_def
    by (simp only: if_True) (erule for_range_keeps_shape; simp add: acc_shape_fresh)
next
  case False
  with assms show ?thesis
    unfolding after_trials_def Let_def
    by (simp only: if_False) (erule for_range_keeps_shape; simp add: acc_shape_fresh)
qed

text \<open>
  Claim C1. When the loop of \<open>N\<close> trials completes, the script returns, and its G2 is
  composed from the final accumulators: entry by entry it is the real part of
  \<open>G1.ii * G1.ss + Q.si_dagger * Q.si + G1.si_dagger * G1.si\<close>, an M*M by M*M array. It
  is assigned once; the later step, the unwrapping of line 259, reads that same value.
\<close>

theorem G2_composed_once:
  assumes "after_trials e c (N_iter c) = Some s"
  shows "\<exists>res. script e c = Some res
       \<and> res_G1 res = G1_acc s \<and> res_Q res = Q_acc s
       \<and> G2 res = compose_G2 (G1_acc s) (Q_acc s)
       \<and> is_mat (M_size c * M_size c) (M_size c * M_size c) (G2 res)
       \<and> (\<forall>r<M_size c * M_size c. \<forall>c'<M_size c * M_size c.
            G2 res ! r ! c'
            = Re (ii (G1_acc s) ! r ! c' * ss (G1_acc s) ! r ! c'
                  + si_dagger (Q_acc s) ! r ! c' * si (Q_acc s) ! r ! c'
                  + si_dagger (G1_acc s) ! r ! c' * si (G1_acc s) ! r ! c'))
       \<and> G2_unwrapped res = unwrap_kron (G2 res) (M_size c)"
proof -
  let ?L = "M_size c * M_size c"
  have sh: "acc_shape ?L (G1_acc s)" "acc_shape ?L (Q_acc s)"
    using after_trials_shape [OF assms] by simp_all
  have m: "is_mat ?L ?L (ii (G1_acc s))" "is_mat ?L ?L (ss (G1_acc s))"
    using sh(1) by (simp_all add: acc_shape_def)
  note e = compose_G2_entries [OF sh]
  show ?thesis
    using e by (simp add: script_def Let_def assms photodetection_Kron_diag [OF m(1)]
        photodetection_Kron_diag [OF m(2)])
qed

lemma for_range_cong:
  "(\<And>n s. n < k \<Longrightarrow> body n s = body' n s) \<Longrightarrow> for_range body k s0 = for_range body' k s0"
  by (induction k) (simp_all split: option.splits)

lemma indistuigishable_ignores_idler:
  "trial_indistuigishable (e\<lparr>crystal_prop := prop2\<rparr>) (c\<lparr>seed_idl := v\<rparr>) x
   = trial_indistuigishable e c x"
  by (simp add: trial_indistuigishable_def poled_def delta_k_def)

lemma vac_rnd_sig_ignores_idler:
  "vac_rnd_sig (e\<lparr>crystal_prop := prop2\<rparr>) (c\<lparr>seed_idl := v\<rparr>) = vac_rnd_sig e c"
  by (simp add: vac_rnd_sig_def)

lemma after_trials_ignores_idler:
  assumes "IS_INDISTIGUISHABLE c"
  shows "after_trials (e\<lparr>crystal_prop := prop2\<rparr>) (c\<lparr>seed_idl := v\<rparr>) k = after_trials e c k"
  using assms
  by (simp add: after_trials_def indistuigishable_ignores_idler vac_rnd_sig_ignores_idler
      M_size_def)

lemma after_trials_Suc_indistuigishable:
  assumes "IS_INDISTIGUISHABLE c"
  shows "after_trials e c (Suc n) =
     (case after_trials e c n of
        None \<Rightarrow> None
      | Some s \<Rightarrow> accumulate (N_iter c) (trial_indistuigishable e c (vac_rnd_sig e c n)) s)"
  using assms by (simp add: after_trials_def)

lemma script_ignores_idler_seed:
  assumes "IS_INDISTIGUISHABLE c"
  shows "script e (c\<lparr>seed_idl := v\<rparr>) = script e c"
proof -
  have "after_trials e (c\<lparr>seed_idl := v\<rparr>) k = after_trials e c k" for k
    using after_trials_ignores_idler [OF assms, where e = e and ?prop2.0 = "crystal_prop e"]
    by simp
  then have a: "after_trials e (c\<lparr>seed_idl := v\<rparr>) (N_iter c) = after_trials e c (N_iter c)" .
  show ?thesis
  proof (cases "after_trials e c (N_iter c)")
    case None
    then show ?thesis by (simp add: script_def a)
  next
    case (Some s)
    then show ?thesis
      using assms by (simp add: script_def a M_size_def Let_def cong: option.case_cong)
  qed
qed

text \<open>
  Claim C10. With the flag of the degenerate case set, everything the script computes
  (G1, Q, the photodetection maps, G2 and its unwrapped form) is the same for any two
  values of the idler seed.
\<close>

theorem idler_seed_irrelevant:
  assumes "IS_INDISTIGUISHABLE c"
  shows "script e (c\<lparr>seed_idl := s1\<rparr>) = script e (c\<lparr>seed_idl := s2\<rparr>)"
  by (simp only: script_ignores_idler_seed [OF assms])

text \<open>
  Claim C9. Two runs with the same two seeds, the same \<open>N\<close> and the same configuration,
  whose libraries compute the same functions and deliver the same vacuum samples for the
  \<open>N\<close> trials, have the same accumulators G1 and Q after every trial and the same
  results, G2 among them. Randomness enters a run only through the samples drawn for
  the two seeds.
\<close>

theorem same_seeds_same_trajectory:
  assumes cfg: "PP_SLT c' = PP_SLT c" "Pump c' = Pump c" "Signal c' = Signal c"
      "Idler c' = Idler c" "R_ff c' = R_ff c" "IS_INDISTIGUISHABLE c' = IS_INDISTIGUISHABLE c"
    and N: "N_iter c' = N_iter c"
    and seeds: "seed_sig c' = seed_sig c" "seed_idl c' = seed_idl c"
    and fns: "Field e' = Field e" "crystal_prop e' = crystal_prop e"
      "crystal_prop_indistuigishable e' = crystal_prop_indistuigishable e"
      "Fourier e' = Fourier e" "G1_Normalization e' = G1_Normalization e"
    and rnd: "\<forall>n<N_iter c. vac_rnd_sig e' c' n = vac_rnd_sig e c n"
      "\<forall>n<N_iter c. vac_rnd_idl e' c' n = vac_rnd_idl e c n"
  shows "(\<forall>k\<le>N_iter c. after_trials e' c' k = after_trials e c k)
       \<and> script e' c' = script e c"
proof -
  have c: "c' = c" using cfg N seeds by simp
  have t1: "trial_indistuigishable e' c v = trial_indistuigishable e c v" for v
    by (simp add: trial_indistuigishable_def fns)
  have t2: "trial_distuigishable e' c v w = trial_distuigishable e c v w" for v w
    by (simp add: trial_distuigishable_def fns)
  have a: "after_trials e' c k = after_trials e c k" if "k \<le> N_iter c" for k
  proof -
    have "for_range (\<lambda>n. accumulate (N_iter c) (trial_indistuigishable e' c (vac_rnd_sig e' c n))) k s0
        = for_range (\<lambda>n. accumulate (N_iter c) (trial_indistuigishable e c (vac_rnd_sig e c n))) k s0"
      for s0
      using that rnd(1) by (intro for_range_cong) (simp add: t1 c)
    moreover have "for_range (\<lambda>n. accumulate (N_iter c)
            (trial_distuigishable e' c (vac_rnd_sig e' c n) (vac_rnd_idl e' c n))) k s0
        = for_range (\<lambda>n. accumulate (N_iter c)
            (trial_distuigishable e c (vac_rnd_sig e c n) (vac_rnd_idl e c n))) k s0"
      for s0
      using that rnd by (intro for_range_cong) (simp add: t2 c)
    ultimately show ?thesis by (simp add: after_trials_def Let_def)
  qed
  have "script e' c = script e c"
  proof (cases "after_trials e c (N_iter c)")
    case None
    then show ?thesis by (simp add: script_def a)
  next
    case (Some s)
    then show ?thesis by (simp add: script_def a fns Let_def cong: option.case_cong)
  qed
  then show ?thesis using a by (simp add: c)
qed

section \<open>The loop returns; instances\<close>

lemma accumulate_total:
  assumes "trial_ok M t" and "acc_shape (M * M) (G1_acc s)" and "acc_shape (M * M) (Q_acc s)"
  shows "\<exists>s'. accumulate N t s = Some s'"
proof -
  obtain a b c d where t: "t = (a, b, c, d)" by (cases t) auto
  obtain g where g: "acc_update (G1_acc s) (G1_pair_ii t) (G1_pair_ss t) (G1_pair_si t) N = Some g"
    using acc_update_total [OF assms(2) G1_pair_lengths [OF assms(1)]] by blast
  obtain q where q: "acc_update (Q_acc s) (Q_pair_ii t) (Q_pair_ss t) (Q_pair_si t) N = Some q"
    using acc_update_total [OF assms(3) Q_pair_lengths [OF assms(1)]] by blast
  show ?thesis
    using g q by (simp add: accumulate_def t G1_update_def Q_update_def)
qed

lemma for_range_total:
  assumes "\<And>n. n < k \<Longrightarrow> trial_ok M (f n)"
    and "acc_shape (M * M) (G1_acc s)" and "acc_shape (M * M) (Q_acc s)"
  shows "\<exists>s'. for_range (\<lambda>n. accumulate N (f n)) k s = Some s'"
  using assms(1)
proof (induction k)
  case 0
  then show ?case by simp
next
  case (Suc k)
  then obtain m where m: "for_range (\<lambda>n. accumulate N (f n)) k s = Some m" by fastforce
  have "acc_shape (M * M) (G1_acc m) \<and> acc_shape (M * M) (Q_acc m)"
    using m assms(2,3) by (rule for_range_keeps_shape)
  then obtain s' where "accumulate N (f k) m = Some s'"
    using accumulate_total [of M "f k" m N] Suc.prems by auto
  then show ?case using m by simp
qed

lemma after_trials_total:
  assumes "IS_INDISTIGUISHABLE c \<Longrightarrow>
             \<forall>n<k. trial_ok (M_size c) (trial_indistuigishable e c (vac_rnd_sig e c n))"
    and "\<not> IS_INDISTIGUISHABLE c \<Longrightarrow>
             \<forall>n<k. trial_ok (M_size c)
                     (trial_distuigishable e c (vac_rnd_sig e c n) (vac_rnd_idl e c n))"
  shows "\<exists>s. after_trials e c k = Some s"
proof (cases "IS_INDISTIGUISHABLE c")
  case True
  then show ?thesis
    using for_range_total [of k "M_size c"
        "\<lambda>n. trial_indistuigishable e c (vac_rnd_sig e c n)" _ "N_iter c"] assms(1)
    by (simp add: after_trials_def acc_shape_fresh)
next
  case False
  then show ?thesis
    using for_range_total [of k "M_size c"
        "\<lambda>n. trial_distuigishable e c (vac_rnd_sig e c n) (vac_rnd_idl e c n)" _ "N_iter c"]
      assms(2)
    by (simp add: after_trials_def acc_shape_fresh)
qed

lemma config0_trials_ok:
  "trial_ok (M_size config0)
     (trial_distuigishable lib0 config0 (vac_rnd_sig lib0 config0 n) (vac_rnd_idl lib0 config0 n))"
  by (simp add: trial_ok_def trial_distuigishable_def lib0_def config0_def M_size_def
      vac_rnd_sig_def vac_rnd_idl_def scale_def is_mat_def Let_def)

theorem G2_composed_once_witness:
  "\<exists>s res. after_trials lib0 config0 (N_iter config0) = Some s
     \<and> script lib0 config0 = Some res
     \<and> G2 res = compose_G2 (G1_acc s) (Q_acc s)
     \<and> G2_unwrapped res = unwrap_kron (G2 res) (M_size config0)"
proof -
  have "\<not> IS_INDISTIGUISHABLE config0" by (simp add: config0_def)
  then obtain s where s: "after_trials lib0 config0 (N_iter config0) = Some s"
    using after_trials_total [of config0 "N_iter config0" lib0] config0_trials_ok by blast
  from G2_composed_once [OF s] s show ?thesis by blast
qed

theorem idler_seed_irrelevant_witness:
  "IS_INDISTIGUISHABLE config1
   \<and> script lib0 (config1\<lparr>seed_idl := 7\<rparr>) = script lib0 (config1\<lparr>seed_idl := 11\<rparr>)"
proof -
  have h: "IS_INDISTIGUISHABLE config1" by (simp add: config1_def)
  from idler_seed_irrelevant [OF h, of lib0 7 11] h show ?thesis by blast
qed

theorem same_seeds_same_trajectory_witness:
  "after_trials (lib0\<lparr>random_normal := (\<lambda>key shp n. if n < 2 then random_normal lib0 key shp n else [])\<rparr>)
     config0 1 = after_trials lib0 config0 1
   \<and> after_trials (lib0\<lparr>random_normal := (\<lambda>key shp n. if n < 2 then random_normal lib0 key shp n else [])\<rparr>)
     config0 2 = after_trials lib0 config0 2
   \<and> script (lib0\<lparr>random_normal := (\<lambda>key shp n. if n < 2 then random_normal lib0 key shp n else [])\<rparr>)
        config0 = script lib0 config0"
proof -
  let ?e = "lib0\<lparr>random_normal := (\<lambda>key shp n. if n < 2 then random_normal lib0 key shp n else [])\<rparr>"
  have r1: "\<forall>n<N_iter config0. vac_rnd_sig ?e config0 n = vac_rnd_sig lib0 config0 n"
    by (simp add: vac_rnd_sig_def config0_def lib0_def)
  have r2: "\<forall>n<N_iter config0. vac_rnd_idl ?e config0 n = vac_rnd_idl lib0 config0 n"
    by (simp add: vac_rnd_idl_def config0_def lib0_def)
  have N: "N_iter config0 = 2" by (simp add: config0_def)
  have "(\<forall>k\<le>N_iter config0. after_trials ?e config0 k = after_trials lib0 config0 k)
       \<and> script ?e config0 = script lib0 config0"
    by (rule same_seeds_same_trajectory [OF _ _ _ _ _ _ _ _ _ _ _ _ _ _ r1 r2]) simp_all
  then show ?thesis by (simp add: N)
qed

theorem G2_diagonal_nonneg_witness:
  "0 \<le> compose_G2 \<lparr>ii = [[2, \<i>], [- \<i>, 1]], ss = [[3, 1], [1, 0]],
                     si = [[\<i>, 2], [0, 1]], si_dagger = [[- \<i>, 0], [2, 1]]\<rparr>
                   \<lparr>ii = [[0, 0], [0, 0]], ss = [[0, 0], [0, 0]],
                     si = [[1, \<i>], [1 + \<i>, 0]], si_dagger = [[1, 1 - \<i>], [- \<i>, 0]]\<rparr> ! 1 ! 1"
proof -
  let ?g = "\<lparr>ii = [[2, \<i>], [- \<i>, 1]], ss = [[3, 1], [1, 0]],
             si = [[\<i>, 2], [0, 1]], si_dagger = [[- \<i>, 0], [2, 1]]\<rparr> :: acc"
  let ?q = "\<lparr>ii = [[0, 0], [0, 0]], ss = [[0, 0], [0, 0]],
             si = [[1, \<i>], [1 + \<i>, 0]], si_dagger = [[1, 1 - \<i>], [- \<i>, 0]]\<rparr> :: acc"
  have 1: "acc_shape 2 ?g" by (simp add: acc_shape_def is_mat_def)
  have 2: "acc_shape 2 ?q" by (simp add: acc_shape_def is_mat_def)
  have 3: "hermitian (ii ?g)" by (simp add: hermitian_def ctranspose_def)
  have 4: "hermitian (ss ?g)" by (simp add: hermitian_def ctranspose_def)
  have 5: "\<forall>j<2. 0 \<le> Re (ii ?g ! j ! j) \<and> 0 \<le> Re (ss ?g ! j ! j)"
    by (simp add: less_2_cases_iff)
  have 6: "si_dagger ?g = ctranspose (si ?g)" by (simp add: ctranspose_def)
  have 7: "si_dagger ?q = ctranspose (si ?q)" by (simp add: ctranspose_def complex_eq_iff)
  have 8: "(1::nat) < 2" by simp
  show ?thesis by (rule G2_diagonal_nonneg [OF 1 2 3 4 5 6 7 8])
qed

theorem Kron_diag_photodetection_witness:
  "is_mat (2 * 2) (2 * 2) [[1, 2, 3, 4], [5, 6, 7, 8], [9, 10, 11, 12], [13, 14, 15, \<i>]]
   \<and> is_mat (2 * 2) (2 * 2) (Kron_diag 2)
   \<and> Kron_diag 2 ! 3 ! 0 = 1 \<and> Kron_diag 2 ! 3 ! 1 = 0
   \<and> photodetection [[1, 2, 3, 4], [5, 6, 7, 8], [9, 10, 11, 12], [13, 14, 15, \<i>]] (Kron_diag 2) 2 5
       = Some (P_loop (unwrap_kron [[1, 2, 3, 4], [5, 6, 7, 8], [9, 10, 11, 12], [13, 14, 15, \<i>]] 2) 2 5)"
proof -
  have h: "is_mat (2 * 2) (2 * 2) [[1, 2, 3, 4], [5, 6, 7, 8], [9, 10, 11, 12], [13, 14, 15, \<i>]]"
    by (simp add: is_mat_def)
  from Kron_diag_photodetection [OF h, of 5] h show ?thesis by simp
qed

section \<open>The degenerate loop as a sequence of updates\<close>

lemma G1_updates_snoc:
  "G1_updates N a (ts @ [(w, x, y, z)])
   = (case G1_updates N a ts of None \<Rightarrow> None | Some a' \<Rightarrow> G1_update a' w x y z N)"
proof (induction N a ts rule: G1_updates.induct)
  case (1 N a)
  then show ?case by (simp split: option.splits)
next
  case (2 N a s_out s_vac i_out i_vac ts)
  then show ?case by (simp split: option.splits)
qed

lemma Q_updates_snoc:
  "Q_updates N a (ts @ [(w, x, y, z)])
   = (case Q_updates N a ts of None \<Rightarrow> None | Some a' \<Rightarrow> Q_update a' w x y z N)"
proof (induction N a ts rule: Q_updates.induct)
  case (1 N a)
  then show ?case by (simp split: option.splits)
next
  case (2 N a s_out s_vac i_out i_vac ts)
  then show ?case by (simp split: option.splits)
qed

lemma for_range_accumulate:
  "for_range (\<lambda>n. accumulate N (f n)) k \<lparr>G1_acc = g0, Q_acc = q0\<rparr>
   = (case G1_updates N g0 (map f [0..<k]) of
        None \<Rightarrow> None
      | Some g \<Rightarrow>
          (case Q_updates N q0 (map f [0..<k]) of
             None \<Rightarrow> None
           | Some q \<Rightarrow> Some \<lparr>G1_acc = g, Q_acc = q\<rparr>))"
proof (induction k)
  case 0
  then show ?case by simp
next
  case (Suc k)
  obtain w x y z where fk: "f k = (w, x, y, z)" by (cases "f k") auto
  let ?ts = "map f [0..<k]"
  let ?s0 = "\<lparr>G1_acc = g0, Q_acc = q0\<rparr>"
  have ts: "map f [0..<Suc k] = ?ts @ [(w, x, y, z)]" by (simp add: fk)
  show ?case
  proof (cases "G1_updates N g0 ?ts")
    case None
    then have "for_range (\<lambda>n. accumulate N (f n)) k ?s0 = None" by (simp add: Suc.IH)
    then show ?thesis unfolding ts by (simp add: G1_updates_snoc None)
  next
    case g: (Some g)
    show ?thesis
    proof (cases "Q_updates N q0 ?ts")
      case None
      then have "for_range (\<lambda>n. accumulate N (f n)) k ?s0 = None" by (simp add: Suc.IH g)
      then show ?thesis
        unfolding ts by (simp add: G1_updates_snoc Q_updates_snoc None split: option.splits)
    next
      case (Some q)
      then have "for_range (\<lambda>n. accumulate N (f n)) k ?s0 = Some \<lparr>G1_acc = g, Q_acc = q\<rparr>"
        by (simp add: Suc.IH g)
      then have step: "for_range (\<lambda>n. accumulate N (f n)) (Suc k) ?s0
                 = accumulate N (w, x, y, z) \<lparr>G1_acc = g, Q_acc = q\<rparr>"
        by (simp add: fk)
      show ?thesis
        unfolding ts step
        by (simp add: G1_updates_snoc Q_updates_snoc g Some accumulate_def split: option.splits)
    qed
  qed
qed

lemma after_trials_indistuigishable_updates:
  assumes "IS_INDISTIGUISHABLE c"
  shows "after_trials e c k
   = (case G1_updates (N_iter c) (G1_mat (M_size c * M_size c))
             (map (\<lambda>n. trial_indistuigishable e c (vac_rnd_sig e c n)) [0..<k]) of
        None \<Rightarrow> None
      | Some g \<Rightarrow>
          (case Q_updates (N_iter c) (Q_mat (M_size c * M_size c))
                  (map (\<lambda>n. trial_indistuigishable e c (vac_rnd_sig e c n)) [0..<k]) of
             None \<Rightarrow> None
           | Some q \<Rightarrow> Some \<lparr>G1_acc = g, Q_acc = q\<rparr>))"
  using assms by (simp add: after_trials_def for_range_accumulate)

lemma config1_trial:
  "trial_indistuigishable lib0 config1 (vac_rnd_sig lib0 config1 n)
   = ([[Complex (4 * (1986 + real n)) (4 * (real n + 1))]],
      [[Complex (2 * (1986 + real n)) (2 * (real n + 1))]],
      [[Complex (4 * (1986 + real n)) (4 * (real n + 1))]],
      [[Complex (2 * (1986 + real n)) (2 * (real n + 1))]])"
  by (simp add: trial_indistuigishable_def lib0_def config0_def config1_def vac_rnd_sig_def
      scale_def FarFieldNorm_def poled_def Let_def complex_eq_iff)

text \<open>
  Claim C3. With the flag of the degenerate case set, the loop starts from the fresh
  accumulators, and trial \<open>n\<close> builds and propagates the signal field only: both
  \<^verbatim>\<open>G1.update\<close> and \<^verbatim>\<open>Q.update\<close> receive the signal's far-field output and vacuum
  arrays in the signal slots and in the idler slots. The accumulators after \<open>k\<close> trials
  are those of the \<open>k\<close> updates of G1 and of Q with these arguments, for the trials
  \<open>0\<close> to \<open>k - 1\<close> in order, and the loop returns them when the arrays are M by M. No
  idler is propagated: the accumulators after any number of trials are the same for any
  two-field propagator and any idler seed.
\<close>

theorem degenerate_aliasing:
  assumes "IS_INDISTIGUISHABLE c"
  shows "after_trials e c 0
       = Some \<lparr>G1_acc = G1_mat (M_size c * M_size c), Q_acc = Q_mat (M_size c * M_size c)\<rparr>
     \<and> after_trials e c (Suc n) =
       (case after_trials e c n of
          None \<Rightarrow> None
        | Some s \<Rightarrow>
           (let Siganl_field = crystal_prop_indistuigishable e (Pump c)
                                 (Field e (Signal c) (poled c) (vac_rnd_sig e c n)) (poled c);
                nrm = FarFieldNorm (poled c) (E_out Siganl_field) (Signal c) (R_ff c);
                E_s_out_k = scale nrm (Fourier e (E_out Siganl_field));
                E_s_vac_k = scale nrm (Fourier e (E_vac Siganl_field))
            in case G1_update (G1_acc s) E_s_out_k E_s_vac_k E_s_out_k E_s_vac_k (N_iter c) of
                 None \<Rightarrow> None
               | Some g \<Rightarrow>
                  (case Q_update (Q_acc s) E_s_out_k E_s_vac_k E_s_out_k E_s_vac_k (N_iter c) of
                     None \<Rightarrow> None
                   | Some q \<Rightarrow> Some \<lparr>G1_acc = g, Q_acc = q\<rparr>)))
     \<and> after_trials e c k =
       (let ts = map (\<lambda>m.
                   let Siganl_field = crystal_prop_indistuigishable e (Pump c)
                                        (Field e (Signal c) (poled c) (vac_rnd_sig e c m)) (poled c);
                       nrm = FarFieldNorm (poled c) (E_out Siganl_field) (Signal c) (R_ff c);
                       E_s_out_k = scale nrm (Fourier e (E_out Siganl_field));
                       E_s_vac_k = scale nrm (Fourier e (E_vac Siganl_field))
                   in (E_s_out_k, E_s_vac_k, E_s_out_k, E_s_vac_k)) [0..<k]
        in case G1_updates (N_iter c) (G1_mat (M_size c * M_size c)) ts of
             None \<Rightarrow> None
           | Some g \<Rightarrow>
              (case Q_updates (N_iter c) (Q_mat (M_size c * M_size c)) ts of
                 None \<Rightarrow> None
               | Some q \<Rightarrow> Some \<lparr>G1_acc = g, Q_acc = q\<rparr>))
     \<and> ((\<forall>m<k. trial_ok (M_size c) (trial_indistuigishable e c (vac_rnd_sig e c m)))
          \<longrightarrow> (\<exists>s. after_trials e c k = Some s))
     \<and> (\<forall>j prop2 v. after_trials (e\<lparr>crystal_prop := prop2\<rparr>) (c\<lparr>seed_idl := v\<rparr>) j
                     = after_trials e c j)"
proof (intro conjI allI impI)
  show "after_trials e c 0
       = Some \<lparr>G1_acc = G1_mat (M_size c * M_size c), Q_acc = Q_mat (M_size c * M_size c)\<rparr>"
    using assms by (simp add: after_trials_def)
next
  show "after_trials e c (Suc n) =
       (case after_trials e c n of
          None \<Rightarrow> None
        | Some s \<Rightarrow>
           (let Siganl_field = crystal_prop_indistuigishable e (Pump c)
                                 (Field e (Signal c) (poled c) (vac_rnd_sig e c n)) (poled c);
                nrm = FarFieldNorm (poled c) (E_out Siganl_field) (Signal c) (R_ff c);
                E_s_out_k = scale nrm (Fourier e (E_out Siganl_field));
                E_s_vac_k = scale nrm (Fourier e (E_vac Siganl_field))
            in case G1_update (G1_acc s) E_s_out_k E_s_vac_k E_s_out_k E_s_vac_k (N_iter c) of
                 None \<Rightarrow> None
               | Some g \<Rightarrow>
                  (case Q_update (Q_acc s) E_s_out_k E_s_vac_k E_s_out_k E_s_vac_k (N_iter c) of
                     None \<Rightarrow> None
                   | Some q \<Rightarrow> Some \<lparr>G1_acc = g, Q_acc = q\<rparr>)))"
    unfolding after_trials_Suc_indistuigishable [OF assms]
    by (cases "after_trials e c n")
       (simp_all add: trial_indistuigishable_def accumulate_def Let_def)
next
  have "(\<lambda>m. trial_indistuigishable e c (vac_rnd_sig e c m))
        = (\<lambda>m. let Siganl_field = crystal_prop_indistuigishable e (Pump c)
                                        (Field e (Signal c) (poled c) (vac_rnd_sig e c m)) (poled c);
                       nrm = FarFieldNorm (poled c) (E_out Siganl_field) (Signal c) (R_ff c);
                       E_s_out_k = scale nrm (Fourier e (E_out Siganl_field));
                       E_s_vac_k = scale nrm (Fourier e (E_vac Siganl_field))
                   in (E_s_out_k, E_s_vac_k, E_s_out_k, E_s_vac_k))"
    by (simp add: trial_indistuigishable_def)
  then show "after_trials e c k =
       (let ts = map (\<lambda>m.
                   let Siganl_field = crystal_prop_indistuigishable e (Pump c)
                                        (Field e (Signal c) (poled c) (vac_rnd_sig e c m)) (poled c);
                       nrm = FarFieldNorm (poled c) (E_out Siganl_field) (Signal c) (R_ff c);
                       E_s_out_k = scale nrm (Fourier e (E_out Siganl_field));
                       E_s_vac_k = scale nrm (Fourier e (E_vac Siganl_field))
                   in (E_s_out_k, E_s_vac_k, E_s_out_k, E_s_vac_k)) [0..<k]
        in case G1_updates (N_iter c) (G1_mat (M_size c * M_size c)) ts of
             None \<Rightarrow> None
           | Some g \<Rightarrow>
              (case Q_updates (N_iter c) (Q_mat (M_size c * M_size c)) ts of
                 None \<Rightarrow> None
               | Some q \<Rightarrow> Some \<lparr>G1_acc = g, Q_acc = q\<rparr>))"
    unfolding after_trials_indistuigishable_updates [OF assms] by (simp only: Let_def)
next
  assume "\<forall>m<k. trial_ok (M_size c) (trial_indistuigishable e c (vac_rnd_sig e c m))"
  then show "\<exists>s. after_trials e c k = Some s"
    using assms by (intro after_trials_total) simp_all
next
  fix j prop2 v
  show "after_trials (e\<lparr>crystal_prop := prop2\<rparr>) (c\<lparr>seed_idl := v\<rparr>) j = after_trials e c j"
    using assms by (rule after_trials_ignores_idler)
qed

theorem degenerate_aliasing_witness:
  "IS_INDISTIGUISHABLE config1
   \<and> after_trials lib0 config1 0 = Some \<lparr>G1_acc = G1_mat 1, Q_acc = Q_mat 1\<rparr>
   \<and> (\<exists>g q. G1_update (G1_mat 1) [[Complex 7944 4]] [[Complex 3972 2]]
                                  [[Complex 7944 4]] [[Complex 3972 2]] 2 = Some g
            \<and> Q_update (Q_mat 1) [[Complex 7944 4]] [[Complex 3972 2]]
                                  [[Complex 7944 4]] [[Complex 3972 2]] 2 = Some q
            \<and> after_trials lib0 config1 (Suc 0) = Some \<lparr>G1_acc = g, Q_acc = q\<rparr>)
   \<and> (\<exists>s. after_trials lib0 config1 2 = Some s)
   \<and> (\<forall>j prop2 v. after_trials (lib0\<lparr>crystal_prop := prop2\<rparr>) (config1\<lparr>seed_idl := v\<rparr>) j
                   = after_trials lib0 config1 j)"
proof -
  have h: "IS_INDISTIGUISHABLE config1" by (simp add: config1_def)
  have M: "M_size config1 = 1" by (simp add: M_size_def config1_def config0_def)
  have N: "N_iter config1 = 2" by (simp add: config1_def config0_def)
  note T = degenerate_aliasing [OF h, of lib0]
  have base: "after_trials lib0 config1 0 = Some \<lparr>G1_acc = G1_mat 1, Q_acc = Q_mat 1\<rparr>"
    using T [of 0 0, THEN conjunct1] by (simp add: M)
  have ok: "\<forall>m<k. trial_ok (M_size config1)
                    (trial_indistuigishable lib0 config1 (vac_rnd_sig lib0 config1 m))" for k
    by (simp add: config1_trial trial_ok_def is_mat_def M)
  have tot: "\<exists>s. after_trials lib0 config1 k = Some s" for k
    using T [of 0 k, THEN conjunct2, THEN conjunct2, THEN conjunct2, THEN conjunct1] ok
    by blast
  have ind: "\<forall>j prop2 v. after_trials (lib0\<lparr>crystal_prop := prop2\<rparr>) (config1\<lparr>seed_idl := v\<rparr>) j
                   = after_trials lib0 config1 j"
    using T [of 0 0, THEN conjunct2, THEN conjunct2, THEN conjunct2, THEN conjunct2] .
  have step: "after_trials lib0 config1 (Suc 0) =
       (case G1_update (G1_mat 1) [[Complex 7944 4]] [[Complex 3972 2]]
                                  [[Complex 7944 4]] [[Complex 3972 2]] 2 of
          None \<Rightarrow> None
        | Some g \<Rightarrow>
           (case Q_update (Q_mat 1) [[Complex 7944 4]] [[Complex 3972 2]]
                                    [[Complex 7944 4]] [[Complex 3972 2]] 2 of
              None \<Rightarrow> None
            | Some q \<Rightarrow> Some \<lparr>G1_acc = g, Q_acc = q\<rparr>))"
  proof -
    have f: "crystal_prop_indistuigishable lib0 (Pump config1)
               (Field lib0 (Signal config1) (poled config1) (vac_rnd_sig lib0 config1 0))
               (poled config1)
             = \<lparr>E_out = [[Complex 3972 2]], E_vac = [[Complex 1986 1]]\<rparr>"
      by (simp add: lib0_def config0_def config1_def vac_rnd_sig_def scale_def poled_def
          complex_eq_iff)
    have n: "FarFieldNorm (poled config1) [[Complex 3972 2]] (Signal config1) (R_ff config1) = 2"
      by (simp add: FarFieldNorm_def poled_def config1_def config0_def)
    have s1: "scale 2 (Fourier lib0 [[Complex 3972 2]]) = [[Complex 7944 4]]"
      by (simp add: scale_def lib0_def complex_eq_iff)
    have s2: "scale 2 (Fourier lib0 [[Complex 1986 1]]) = [[Complex 3972 2]]"
      by (simp add: scale_def lib0_def complex_eq_iff)
    show ?thesis
      using T [of 0 0, THEN conjunct2, THEN conjunct1]
      by (simp only: base option.case Let_def f n s1 s2 N field_t.simps accs.simps)
  qed
  obtain s where s: "after_trials lib0 config1 (Suc 0) = Some s" using tot by blast
  from s step obtain g q where
    "G1_update (G1_mat 1) [[Complex 7944 4]] [[Complex 3972 2]]
                          [[Complex 7944 4]] [[Complex 3972 2]] 2 = Some g"
    "Q_update (Q_mat 1) [[Complex 7944 4]] [[Complex 3972 2]]
                        [[Complex 7944 4]] [[Complex 3972 2]] 2 = Some q"
    "after_trials lib0 config1 (Suc 0) = Some \<lparr>G1_acc = g, Q_acc = q\<rparr>"
    by (auto split: option.splits)
  then show ?thesis using h base tot ind by blast
qed

end
